theory Spec2Isabelle
  imports Main "HOL-Library.Word"
begin

section \<open>Go values\<close>

text \<open>
  Go's \<open>int\<close> is a 64-bit two's complement integer on the platforms the package is
  built for; \<open>+\<close>, \<open>-\<close> and \<open>*\<close> wrap around silently. An \<open>int\<close> is modelled as a
  HOL \<open>int\<close> in the range \<open>-2^63 ..< 2^63\<close>, and every arithmetic operation of the source
  is written with its wrap-around.
\<close>

definition wrap64 :: "int \<Rightarrow> int" where
  "wrap64 x = (x + 2 ^ 63) mod 2 ^ 64 - 2 ^ 63"

definition iadd :: "int \<Rightarrow> int \<Rightarrow> int" where
  "iadd a b = wrap64 (a + b)"

definition isub :: "int \<Rightarrow> int \<Rightarrow> int" where
  "isub a b = wrap64 (a - b)"

definition imul :: "int \<Rightarrow> int \<Rightarrow> int" where
  "imul a b = wrap64 (a * b)"

definition is_int64 :: "int \<Rightarrow> bool" where
  "is_int64 x = (- (2 ^ 63) \<le> x \<and> x < 2 ^ 63)"

text \<open>
  A run either returns, or panics (the Go runtime aborts it), or exhausts the bound on
  the recursion depth that the model of the recursive \<open>dfs\<close> carries.
\<close>

datatype panic = IndexOutOfRange | NegativeLen | NilDereference

datatype 'a result = Done 'a | Panic panic | OutOfFuel

fun bind :: "'a result \<Rightarrow> ('a \<Rightarrow> 'b result) \<Rightarrow> 'b result" where
  "bind (Done x) f = f x"
| "bind (Panic e) f = Panic e"
| "bind OutOfFuel f = OutOfFuel"

text \<open>A \<open>for ... range\<close> loop over the values \<open>xs\<close>, threading the state.\<close>

fun for_each :: "'a list \<Rightarrow> ('a \<Rightarrow> 's \<Rightarrow> 's result) \<Rightarrow> 's \<Rightarrow> 's result" where
  "for_each [] f s = Done s"
| "for_each (x # xs) f s = bind (f x s) (for_each xs f)"

text \<open>\<open>for i := range n\<close> over an \<open>int\<close>: \<open>0, 1, ..., n-1\<close>, no iteration when \<open>n \<le> 0\<close>.\<close>

definition range_int :: "int \<Rightarrow> int list" where
  "range_int n = [0..n - 1]"

text \<open>
  \<open>make([]T, n)\<close>: a slice of \<open>n\<close> zero values; a negative length panics. The memory
  of the machine is not modelled: an allocation of any length that is not negative returns.
\<close>

definition make_slice :: "int \<Rightarrow> 'a \<Rightarrow> 'a list result" where
  "make_slice n z = (if n < 0 then Panic NegativeLen else Done (replicate (nat n) z))"

text \<open>Indexing a slice of slices, \<open>xss[i][j]\<close>, with the runtime's bounds checks.\<close>

definition load2 :: "'a list list \<Rightarrow> int \<Rightarrow> int \<Rightarrow> 'a result" where
  "load2 xss i j =
     (if 0 \<le> i \<and> i < int (length xss) then
        (if 0 \<le> j \<and> j < int (length (xss ! nat i)) then Done (xss ! nat i ! nat j)
         else Panic IndexOutOfRange)
      else Panic IndexOutOfRange)"

definition store2 :: "'a list list \<Rightarrow> int \<Rightarrow> int \<Rightarrow> 'a \<Rightarrow> 'a list list result" where
  "store2 xss i j v =
     (if 0 \<le> i \<and> i < int (length xss) then
        (if 0 \<le> j \<and> j < int (length (xss ! nat i))
         then Done (xss[nat i := (xss ! nat i)[nat j := v]])
         else Panic IndexOutOfRange)
      else Panic IndexOutOfRange)"

section \<open>The random source\<close>

text \<open>
  \<open>math/rand/v2\<close> belongs to Go's standard library, not to this package. The model takes
  it as a parameter: \<open>NewPCG seed1 seed2\<close> is the generator state that
  \<open>rand.New(rand.NewPCG(seed1, seed2))\<close> starts from, and \<open>Perm g n\<close> is the slice
  that \<open>Perm(n)\<close> returns in state \<open>g\<close>, with the state it leaves. The library
  documents \<open>Perm(n)\<close> as a permutation of \<open>0, ..., n-1\<close>.
\<close>

record 'g rand_source =
  NewPCG :: "64 word \<Rightarrow> 64 word \<Rightarrow> 'g"
  Perm :: "'g \<Rightarrow> int \<Rightarrow> int list \<times> 'g"

definition perm_contract :: "'g rand_source \<Rightarrow> bool" where
  "perm_contract src =
     (\<forall>g. distinct (fst (Perm src g 4)) \<and> set (fst (Perm src g 4)) = {0, 1, 2, 3})"

text \<open>
  A small deterministic source that meets the contract, to run the model on concrete
  inputs: the state is a counter and \<open>Perm\<close> rotates \<open>0, ..., n-1\<close> by it.
\<close>

definition rot_source :: "nat rand_source" where
  "rot_source =
     \<lparr>NewPCG = (\<lambda>seed1 seed2. unat (seed1 + seed2) mod 4),
      Perm = (\<lambda>g n. (rotate g (map int [0..<nat n]), Suc g))\<rparr>"

section \<open>The maze (maze.go)\<close>

record 'g Maze =
  Grid :: "int list list"
  Visited :: "bool list list"
  Rnd :: "'g option"
  CellSize :: int
  WallThickness :: int
  Cols :: int
  Rows :: int

definition NewMaze :: "int \<Rightarrow> int \<Rightarrow> int \<Rightarrow> int \<Rightarrow> 'g Maze result" where
  "NewMaze w h cellSize wallThickness =
     (let R = iadd (imul h cellSize) (imul (iadd h 1) wallThickness);
          C = iadd (imul w cellSize) (imul (iadd w 1) wallThickness)
      in bind (make_slice R []) (\<lambda>mat.
         bind (for_each [0..<length mat]
                 (\<lambda>i mat. bind (make_slice C 0) (\<lambda>row. Done (mat[i := row]))) mat) (\<lambda>mat.
         bind (make_slice h []) (\<lambda>visited.
         bind (for_each [0..<length visited]
                 (\<lambda>i visited. bind (make_slice w False) (\<lambda>row. Done (visited[i := row]))) visited)
           (\<lambda>visited.
         Done \<lparr>Grid = mat, Visited = visited, Rnd = None, CellSize = cellSize,
               WallThickness = wallThickness, Cols = w, Rows = h\<rparr>)))))"

text \<open>
  The guard of every pixel write in \<open>dfs\<close>:
  \<open>wy >= 0 && wy < len(m.Grid) && wx >= 0 && wx < len(m.Grid[0])\<close>.
  \<open>&&\<close> evaluates left to right, so \<open>m.Grid[0]\<close> is read only when the grid has a row.
\<close>

definition in_bounds :: "int list list \<Rightarrow> int \<Rightarrow> int \<Rightarrow> bool" where
  "in_bounds g wy wx = (wy \<ge> 0 \<and> wy < int (length g) \<and> wx \<ge> 0 \<and> wx < int (length (g ! 0)))"

text \<open>The guarded write: \<open>if ... { m.Grid[wy][wx] = 0 }\<close>; a pixel outside is skipped.\<close>

definition set_path :: "'g Maze \<Rightarrow> int \<Rightarrow> int \<Rightarrow> 'g Maze result" where
  "set_path m wy wx =
     (if in_bounds (Grid m) wy wx
      then bind (store2 (Grid m) wy wx 0) (\<lambda>g. Done (m\<lparr>Grid := g\<rparr>))
      else Done m)"

text \<open>The five nested pixel loops of \<open>dfs\<close>, each in the loop order of the source.\<close>

definition fill_cell :: "'g Maze \<Rightarrow> int \<Rightarrow> int \<Rightarrow> 'g Maze result" where
  "fill_cell m startY startX =
     for_each (range_int (CellSize m)) (\<lambda>y.
       for_each (range_int (CellSize m)) (\<lambda>x m.
         set_path m (iadd startY y) (iadd startX x))) m"

definition open_up :: "'g Maze \<Rightarrow> int \<Rightarrow> int \<Rightarrow> 'g Maze result" where
  "open_up m startY startX =
     for_each (range_int (CellSize m)) (\<lambda>x.
       for_each (range_int (WallThickness m)) (\<lambda>y m.
         set_path m (iadd (isub startY (WallThickness m)) y) (iadd startX x))) m"

definition open_left :: "'g Maze \<Rightarrow> int \<Rightarrow> int \<Rightarrow> 'g Maze result" where
  "open_left m startY startX =
     for_each (range_int (CellSize m)) (\<lambda>y.
       for_each (range_int (WallThickness m)) (\<lambda>x m.
         set_path m (iadd startY y) (iadd (isub startX (WallThickness m)) x))) m"

definition open_down :: "'g Maze \<Rightarrow> int \<Rightarrow> int \<Rightarrow> 'g Maze result" where
  "open_down m startY startX =
     for_each (range_int (CellSize m)) (\<lambda>x.
       for_each (range_int (WallThickness m)) (\<lambda>y m.
         set_path m (iadd (iadd startY (CellSize m)) y) (iadd startX x))) m"

definition open_right :: "'g Maze \<Rightarrow> int \<Rightarrow> int \<Rightarrow> 'g Maze result" where
  "open_right m startY startX =
     for_each (range_int (CellSize m)) (\<lambda>y.
       for_each (range_int (WallThickness m)) (\<lambda>x m.
         set_path m (iadd startY y) (iadd (iadd startX (CellSize m)) x))) m"

text \<open>
  One case of the \<open>switch dir\<close> in \<open>dfs\<close>: the neighbour \<open>(nr, nc)\<close>, its bounds test
  \<open>inside\<close> (evaluated before \<open>m.Visited[nr][nc]\<close> is read), the loop that opens the wall,
  and the recursive call \<open>rec\<close>.
\<close>

definition visit ::
  "('g Maze \<Rightarrow> int \<Rightarrow> int \<Rightarrow> 'g Maze result) \<Rightarrow> bool \<Rightarrow> int \<Rightarrow> int \<Rightarrow>
   ('g Maze \<Rightarrow> 'g Maze result) \<Rightarrow> 'g Maze \<Rightarrow> 'g Maze result" where
  "visit rec inside nr nc open_wall m =
     (if inside then
        bind (load2 (Visited m) nr nc) (\<lambda>v.
          if \<not> v then bind (open_wall m) (\<lambda>m. rec m nr nc) else Done m)
      else Done m)"

text \<open>
  The \<open>switch dir\<close> of \<open>dfs\<close> (0 up, 1 left, 2 down, 3 right; no default case), for the
  cell \<open>(r, c)\<close> whose pixel block starts at \<open>(startY, startX)\<close>.
\<close>

definition switch_dir ::
  "('g Maze \<Rightarrow> int \<Rightarrow> int \<Rightarrow> 'g Maze result) \<Rightarrow> int \<Rightarrow> int \<Rightarrow> int \<Rightarrow> int \<Rightarrow>
   int \<Rightarrow> 'g Maze \<Rightarrow> 'g Maze result" where
  "switch_dir rec r c startY startX dir m =
     (if dir = 0 then
        visit rec (isub r 1 \<ge> 0) (isub r 1) c (\<lambda>m. open_up m startY startX) m
      else if dir = 1 then
        visit rec (isub c 1 \<ge> 0) r (isub c 1) (\<lambda>m. open_left m startY startX) m
      else if dir = 2 then
        visit rec (iadd r 1 < Rows m) (iadd r 1) c (\<lambda>m. open_down m startY startX) m
      else if dir = 3 then
        visit rec (iadd c 1 < Cols m) r (iadd c 1) (\<lambda>m. open_right m startY startX) m
      else Done m)"

text \<open>
  \<open>dfs\<close> is recursive; its first argument bounds the depth of the recursion (the number
  of nested calls), and a run that needs more returns \<open>OutOfFuel\<close>.
\<close>

primrec dfs :: "'g rand_source \<Rightarrow> nat \<Rightarrow> 'g Maze \<Rightarrow> int \<Rightarrow> int \<Rightarrow> 'g Maze result" where
  "dfs src 0 m r c = OutOfFuel"
| "dfs src (Suc fuel) m r c =
     bind (store2 (Visited m) r c True) (\<lambda>vis.
       let m = m\<lparr>Visited := vis\<rparr>;
           startY = iadd (WallThickness m) (imul r (iadd (CellSize m) (WallThickness m)));
           startX = iadd (WallThickness m) (imul c (iadd (CellSize m) (WallThickness m)))
       in bind (fill_cell m startY startX) (\<lambda>m.
            case Rnd m of
              None \<Rightarrow> Panic NilDereference
            | Some g \<Rightarrow>
                (case Perm src g 4 of (dirs, g') \<Rightarrow>
                   for_each dirs (switch_dir (dfs src fuel) r c startY startX)
                     (m\<lparr>Rnd := Some g'\<rparr>))))"

text \<open>
  \<open>Generate\<close> reseeds the source, sets every pixel to 1 and every flag to false, and calls
  \<open>dfs(0, 0)\<close>; its second argument is the bound on the depth that it passes to \<open>dfs\<close>.
\<close>

definition Generate ::
  "'g rand_source \<Rightarrow> nat \<Rightarrow> 'g Maze \<Rightarrow> 64 word \<Rightarrow> 64 word \<Rightarrow> 'g Maze result" where
  "Generate src fuel m seed1 seed2 =
     (let m = m\<lparr>Rnd := Some (NewPCG src seed1 seed2)\<rparr>;
          m = m\<lparr>Grid := map (\<lambda>row. map (\<lambda>_. 1) row) (Grid m)\<rparr>;
          m = m\<lparr>Visited := map (\<lambda>row. map (\<lambda>_. False) row) (Visited m)\<rparr>
      in dfs src fuel m 0 0)"

text \<open>\<open>Size\<close> returns \<open>image.Point{X, Y}\<close>: the width first, then the height.\<close>

definition Size :: "'g Maze \<Rightarrow> int \<times> int" where
  "Size m =
     (iadd (imul (Cols m) (CellSize m)) (imul (iadd (Cols m) 1) (WallThickness m)),
      iadd (imul (Rows m) (CellSize m)) (imul (iadd (Rows m) 1) (WallThickness m)))"

section \<open>The maze in memory\<close>

text \<open>
  A Go slice refers to a backing array, and every copy of the slice refers to the same
  array: \<open>m.Grid[wy][wx] = 0\<close> stores into the array that the row \<open>m.Grid[wy]\<close> refers to.
  To state what \<open>Generate\<close> does to the arrays themselves, this section gives the program
  a second time, with the arrays in an explicit store.

  Every slice of the package is made by \<open>make\<close>, which returns a slice that covers the whole
  of a new array, and the package never reslices and never appends. A slice is therefore
  nil or the address of its array, and its length is the length of that array. The store
  holds the arrays by the type of their elements: the arrays of rows behind \<open>[][]T\<close> and
  \<open>[][]bool\<close>, the arrays of pixels and the arrays of flags. The address of an array is its
  index in the store, and \<open>make\<close> puts the new array at the end of the store.
\<close>

type_synonym addr = nat

type_synonym slice = "addr option"

record store =
  slice_arrays :: "slice list list"
  int_arrays :: "int list list"
  bool_arrays :: "bool list list"

text \<open>
  The array that a slice refers to (none for nil, and none for an address that the store
  does not hold), \<open>len(s)\<close>, and the indexing \<open>s[i]\<close> and the assignment \<open>s[i] = v\<close> with
  the bounds check of the runtime.
\<close>

fun array_at :: "'a list list \<Rightarrow> slice \<Rightarrow> 'a list" where
  "array_at mem None = []"
| "array_at mem (Some a) = (if a < length mem then mem ! a else [])"

definition len_at :: "'a list list \<Rightarrow> slice \<Rightarrow> int" where
  "len_at mem sl = int (length (array_at mem sl))"

definition index_at :: "'a list list \<Rightarrow> slice \<Rightarrow> int \<Rightarrow> 'a result" where
  "index_at mem sl i =
     (if 0 \<le> i \<and> i < len_at mem sl then Done (array_at mem sl ! nat i)
      else Panic IndexOutOfRange)"

fun assign_at :: "'a list list \<Rightarrow> slice \<Rightarrow> int \<Rightarrow> 'a \<Rightarrow> 'a list list result" where
  "assign_at mem None i v = Panic IndexOutOfRange"
| "assign_at mem (Some a) i v =
     (if 0 \<le> i \<and> i < len_at mem (Some a) then Done (mem[a := (mem ! a)[nat i := v]])
      else Panic IndexOutOfRange)"

text \<open>
  \<open>make([]T, n)\<close> in the store \<open>mem\<close>, and the loop \<open>for i := range mat { mat[i] = make([]T, n) }\<close>
  for a slice \<open>mat\<close> of rows.
\<close>

definition make_at :: "'a list list \<Rightarrow> int \<Rightarrow> 'a \<Rightarrow> ('a list list \<times> slice) result" where
  "make_at mem n z = bind (make_slice n z) (\<lambda>xs. Done (mem @ [xs], Some (length mem)))"

definition make_rows ::
  "slice list list \<Rightarrow> 'a list list \<Rightarrow> slice \<Rightarrow> int \<Rightarrow> 'a \<Rightarrow>
   (slice list list \<times> 'a list list) result" where
  "make_rows sa mem mat n z =
     for_each (range_int (len_at sa mat))
       (\<lambda>i (sa, mem). bind (make_at mem n z) (\<lambda>(mem, row).
                       bind (assign_at sa mat i row) (\<lambda>sa. Done (sa, mem))))
       (sa, mem)"

text \<open>
  The struct that a \<open>*Maze\<close> points to. The field \<open>F\<close> of the source is \<open>mF\<close> here;
  \<open>mGrid\<close> and \<open>mVisited\<close> are slices of rows in the store.
\<close>

record 'g Maze_ptr =
  mGrid :: slice
  mVisited :: slice
  mRnd :: "'g option"
  mCellSize :: int
  mWallThickness :: int
  mCols :: int
  mRows :: int

text \<open>
  \<open>NewMaze\<close> in the store \<open>s\<close>: it makes the slice of rows of the grid, a row for each of
  its elements, then the same for the visited matrix, and returns the store with the new
  arrays and the struct that refers to them.
\<close>

definition NewMaze_mem ::
  "store \<Rightarrow> int \<Rightarrow> int \<Rightarrow> int \<Rightarrow> int \<Rightarrow> (store \<times> 'g Maze_ptr) result" where
  "NewMaze_mem s w h cellSize wallThickness =
     (let R = iadd (imul h cellSize) (imul (iadd h 1) wallThickness);
          C = iadd (imul w cellSize) (imul (iadd w 1) wallThickness)
      in bind (make_at (slice_arrays s) R None) (\<lambda>(sa, mat).
         bind (make_rows sa (int_arrays s) mat C 0) (\<lambda>(sa, ia).
         bind (make_at sa h None) (\<lambda>(sa, visited).
         bind (make_rows sa (bool_arrays s) visited w False) (\<lambda>(sa, ba).
         Done (\<lparr>slice_arrays = sa, int_arrays = ia, bool_arrays = ba\<rparr>,
               \<lparr>mGrid = mat, mVisited = visited, mRnd = None, mCellSize = cellSize,
                mWallThickness = wallThickness, mCols = w, mRows = h\<rparr>))))))"

text \<open>
  \<open>m.Grid[i][j] = v\<close>, \<open>m.Visited[i][j] = b\<close> and the read of \<open>m.Visited[i][j]\<close>: the row is
  indexed first, then the element of the row.
\<close>

definition set_pixel ::
  "store \<times> 'g Maze_ptr \<Rightarrow> int \<Rightarrow> int \<Rightarrow> int \<Rightarrow> (store \<times> 'g Maze_ptr) result" where
  "set_pixel sm i j v =
     (case sm of (s, m) \<Rightarrow>
        bind (index_at (slice_arrays s) (mGrid m) i) (\<lambda>row.
        bind (assign_at (int_arrays s) row j v) (\<lambda>ia.
        Done (s\<lparr>int_arrays := ia\<rparr>, m))))"

definition set_flag ::
  "store \<times> 'g Maze_ptr \<Rightarrow> int \<Rightarrow> int \<Rightarrow> bool \<Rightarrow> (store \<times> 'g Maze_ptr) result" where
  "set_flag sm i j b =
     (case sm of (s, m) \<Rightarrow>
        bind (index_at (slice_arrays s) (mVisited m) i) (\<lambda>row.
        bind (assign_at (bool_arrays s) row j b) (\<lambda>ba.
        Done (s\<lparr>bool_arrays := ba\<rparr>, m))))"

definition get_flag :: "store \<times> 'g Maze_ptr \<Rightarrow> int \<Rightarrow> int \<Rightarrow> bool result" where
  "get_flag sm i j =
     (case sm of (s, m) \<Rightarrow>
        bind (index_at (slice_arrays s) (mVisited m) i) (\<lambda>row.
        index_at (bool_arrays s) row j))"

text \<open>
  The guard of the pixel writes, the guarded write, and the five pixel loops of \<open>dfs\<close>.
\<close>

definition in_bounds_mem :: "store \<times> 'g Maze_ptr \<Rightarrow> int \<Rightarrow> int \<Rightarrow> bool" where
  "in_bounds_mem sm wy wx =
     (case sm of (s, m) \<Rightarrow>
        wy \<ge> 0 \<and> wy < len_at (slice_arrays s) (mGrid m) \<and> wx \<ge> 0 \<and>
        wx < len_at (int_arrays s) (array_at (slice_arrays s) (mGrid m) ! 0))"

definition set_path_mem ::
  "store \<times> 'g Maze_ptr \<Rightarrow> int \<Rightarrow> int \<Rightarrow> (store \<times> 'g Maze_ptr) result" where
  "set_path_mem sm wy wx = (if in_bounds_mem sm wy wx then set_pixel sm wy wx 0 else Done sm)"

definition fill_cell_mem ::
  "store \<times> 'g Maze_ptr \<Rightarrow> int \<Rightarrow> int \<Rightarrow> (store \<times> 'g Maze_ptr) result" where
  "fill_cell_mem sm startY startX =
     for_each (range_int (mCellSize (snd sm))) (\<lambda>y.
       for_each (range_int (mCellSize (snd sm))) (\<lambda>x sm.
         set_path_mem sm (iadd startY y) (iadd startX x))) sm"

definition open_up_mem ::
  "store \<times> 'g Maze_ptr \<Rightarrow> int \<Rightarrow> int \<Rightarrow> (store \<times> 'g Maze_ptr) result" where
  "open_up_mem sm startY startX =
     for_each (range_int (mCellSize (snd sm))) (\<lambda>x.
       for_each (range_int (mWallThickness (snd sm))) (\<lambda>y sm.
         set_path_mem sm (iadd (isub startY (mWallThickness (snd sm))) y) (iadd startX x))) sm"

definition open_left_mem ::
  "store \<times> 'g Maze_ptr \<Rightarrow> int \<Rightarrow> int \<Rightarrow> (store \<times> 'g Maze_ptr) result" where
  "open_left_mem sm startY startX =
     for_each (range_int (mCellSize (snd sm))) (\<lambda>y.
       for_each (range_int (mWallThickness (snd sm))) (\<lambda>x sm.
         set_path_mem sm (iadd startY y) (iadd (isub startX (mWallThickness (snd sm))) x))) sm"

definition open_down_mem ::
  "store \<times> 'g Maze_ptr \<Rightarrow> int \<Rightarrow> int \<Rightarrow> (store \<times> 'g Maze_ptr) result" where
  "open_down_mem sm startY startX =
     for_each (range_int (mCellSize (snd sm))) (\<lambda>x.
       for_each (range_int (mWallThickness (snd sm))) (\<lambda>y sm.
         set_path_mem sm (iadd (iadd startY (mCellSize (snd sm))) y) (iadd startX x))) sm"

definition open_right_mem ::
  "store \<times> 'g Maze_ptr \<Rightarrow> int \<Rightarrow> int \<Rightarrow> (store \<times> 'g Maze_ptr) result" where
  "open_right_mem sm startY startX =
     for_each (range_int (mCellSize (snd sm))) (\<lambda>y.
       for_each (range_int (mWallThickness (snd sm))) (\<lambda>x sm.
         set_path_mem sm (iadd startY y) (iadd (iadd startX (mCellSize (snd sm))) x))) sm"

text \<open>
  One case of the \<open>switch\<close>, the \<open>switch\<close>, and \<open>dfs\<close> with the bound on its depth.
\<close>

definition visit_mem ::
  "(store \<times> 'g Maze_ptr \<Rightarrow> int \<Rightarrow> int \<Rightarrow> (store \<times> 'g Maze_ptr) result) \<Rightarrow> bool \<Rightarrow> int \<Rightarrow> int \<Rightarrow>
   (store \<times> 'g Maze_ptr \<Rightarrow> (store \<times> 'g Maze_ptr) result) \<Rightarrow> store \<times> 'g Maze_ptr \<Rightarrow>
   (store \<times> 'g Maze_ptr) result" where
  "visit_mem rec inside nr nc open_wall sm =
     (if inside then
        bind (get_flag sm nr nc) (\<lambda>v.
          if \<not> v then bind (open_wall sm) (\<lambda>sm. rec sm nr nc) else Done sm)
      else Done sm)"

definition switch_dir_mem ::
  "(store \<times> 'g Maze_ptr \<Rightarrow> int \<Rightarrow> int \<Rightarrow> (store \<times> 'g Maze_ptr) result) \<Rightarrow> int \<Rightarrow> int \<Rightarrow>
   int \<Rightarrow> int \<Rightarrow> int \<Rightarrow> store \<times> 'g Maze_ptr \<Rightarrow> (store \<times> 'g Maze_ptr) result" where
  "switch_dir_mem rec r c startY startX dir sm =
     (if dir = 0 then
        visit_mem rec (isub r 1 \<ge> 0) (isub r 1) c (\<lambda>sm. open_up_mem sm startY startX) sm
      else if dir = 1 then
        visit_mem rec (isub c 1 \<ge> 0) r (isub c 1) (\<lambda>sm. open_left_mem sm startY startX) sm
      else if dir = 2 then
        visit_mem rec (iadd r 1 < mRows (snd sm)) (iadd r 1) c
          (\<lambda>sm. open_down_mem sm startY startX) sm
      else if dir = 3 then
        visit_mem rec (iadd c 1 < mCols (snd sm)) r (iadd c 1)
          (\<lambda>sm. open_right_mem sm startY startX) sm
      else Done sm)"

primrec dfs_mem ::
  "'g rand_source \<Rightarrow> nat \<Rightarrow> store \<times> 'g Maze_ptr \<Rightarrow> int \<Rightarrow> int \<Rightarrow>
   (store \<times> 'g Maze_ptr) result" where
  "dfs_mem src 0 sm r c = OutOfFuel"
| "dfs_mem src (Suc fuel) sm r c =
     bind (set_flag sm r c True) (\<lambda>sm.
       let m = snd sm;
           startY = iadd (mWallThickness m) (imul r (iadd (mCellSize m) (mWallThickness m)));
           startX = iadd (mWallThickness m) (imul c (iadd (mCellSize m) (mWallThickness m)))
       in bind (fill_cell_mem sm startY startX) (\<lambda>sm.
            case mRnd (snd sm) of
              None \<Rightarrow> Panic NilDereference
            | Some g \<Rightarrow>
                (case Perm src g 4 of (dirs, g') \<Rightarrow>
                   for_each dirs (switch_dir_mem (dfs_mem src fuel) r c startY startX)
                     (fst sm, (snd sm)\<lparr>mRnd := Some g'\<rparr>))))"

text \<open>
  \<open>Generate\<close>: the two reset loops are \<open>for i := range m.Grid { for j := range m.Grid[i] { m.Grid[i][j] = 1 } }\<close> and
  the same over \<open>m.Visited\<close>, each element assigned in its array.
\<close>

definition Generate_mem ::
  "'g rand_source \<Rightarrow> nat \<Rightarrow> store \<times> 'g Maze_ptr \<Rightarrow> 64 word \<Rightarrow> 64 word \<Rightarrow>
   (store \<times> 'g Maze_ptr) result" where
  "Generate_mem src fuel sm seed1 seed2 =
     (let sm = (fst sm, (snd sm)\<lparr>mRnd := Some (NewPCG src seed1 seed2)\<rparr>)
      in bind (for_each (range_int (len_at (slice_arrays (fst sm)) (mGrid (snd sm))))
                 (\<lambda>i sm. bind (index_at (slice_arrays (fst sm)) (mGrid (snd sm)) i) (\<lambda>row.
                    for_each (range_int (len_at (int_arrays (fst sm)) row))
                      (\<lambda>j sm. set_pixel sm i j 1) sm)) sm) (\<lambda>sm.
         bind (for_each (range_int (len_at (slice_arrays (fst sm)) (mVisited (snd sm))))
                 (\<lambda>i sm. bind (index_at (slice_arrays (fst sm)) (mVisited (snd sm)) i) (\<lambda>row.
                    for_each (range_int (len_at (bool_arrays (fst sm)) row))
                      (\<lambda>j sm. set_flag sm i j False) sm)) sm) (\<lambda>sm.
         dfs_mem src fuel sm 0 0)))"

section \<open>Notions used by the properties\<close>

subsection \<open>Instances and runs\<close>

text \<open>
  \<open>frame m m'\<close>: \<open>m'\<close> has the configuration of \<open>m\<close> and slices of the same lengths (the
  number of rows and the length of every row, for the grid and for the visited matrix).
\<close>

definition frame :: "'g Maze \<Rightarrow> 'g Maze \<Rightarrow> bool" where
  "frame m m' =
     (CellSize m' = CellSize m \<and> WallThickness m' = WallThickness m \<and>
      Cols m' = Cols m \<and> Rows m' = Rows m \<and>
      map length (Grid m') = map length (Grid m) \<and>
      map length (Visited m') = map length (Visited m))"

text \<open>
  \<open>regenerated src m0 m\<close>: \<open>m\<close> is the instance \<open>m0\<close> after any number of calls of
  \<open>Generate\<close> that returned, with any seeds and any bound on the depth.
\<close>

inductive regenerated :: "'g rand_source \<Rightarrow> 'g Maze \<Rightarrow> 'g Maze \<Rightarrow> bool" for src m0 where
  fresh: "regenerated src m0 m0"
| again: "regenerated src m0 m \<Longrightarrow> Generate src n m seed1 seed2 = Done m' \<Longrightarrow>
          regenerated src m0 m'"

subsection \<open>Cells and their pixels\<close>

text \<open>
  A cell is a pair (row, column) of the logical grid, a pixel a pair (y, x) of the
  occupancy grid. \<open>cells m\<close> are the cells of the configuration, \<open>visited_cells m\<close> those
  whose flag in the visited matrix is set.
\<close>

type_synonym cell = "int \<times> int"

type_synonym pixel = "int \<times> int"

definition cells :: "'g Maze \<Rightarrow> cell set" where
  "cells m = {(r, c). 0 \<le> r \<and> r < Rows m \<and> 0 \<le> c \<and> c < Cols m}"

definition visited_cells :: "'g Maze \<Rightarrow> cell set" where
  "visited_cells m = {(r, c). (r, c) \<in> cells m \<and> load2 (Visited m) r c = Done True}"

text \<open>
  The neighbour of a cell in the direction \<open>d\<close>, numbered as in the \<open>switch\<close> of \<open>dfs\<close>:
  0 up, 1 left, 2 down, 3 right.
\<close>

fun neighbour :: "cell \<Rightarrow> int \<Rightarrow> cell" where
  "neighbour (r, c) d =
     (if d = 0 then (r - 1, c) else if d = 1 then (r, c - 1)
      else if d = 2 then (r + 1, c) else (r, c + 1))"

text \<open>
  The geometry of the pixel grid in exact integers, without wrap-around: the first pixel
  row (or column) of the cells in row (or column) \<open>k\<close>, and the height (or width) of the
  grid for \<open>n\<close> rows (or columns). \<open>fits w h cs wt\<close> says that both dimensions are below \<open>2^63\<close>,
  so that Go's \<open>int\<close> computes them, and every coordinate below them, without overflow.
\<close>

definition origin :: "int \<Rightarrow> int \<Rightarrow> int \<Rightarrow> int" where
  "origin cs wt k = wt + k * (cs + wt)"

definition pixel_dim :: "int \<Rightarrow> int \<Rightarrow> int \<Rightarrow> int" where
  "pixel_dim n cs wt = n * cs + (n + 1) * wt"

definition fits :: "int \<Rightarrow> int \<Rightarrow> int \<Rightarrow> int \<Rightarrow> bool" where
  "fits w h cs wt = (pixel_dim w cs wt < 2 ^ 63 \<and> pixel_dim h cs wt < 2 ^ 63)"

text \<open>
  \<open>rect y0 x0 h w\<close> is the rectangle of \<open>h\<close> rows and \<open>w\<close> columns whose first pixel is
  \<open>(y0, x0)\<close>; \<open>block cs wt u\<close> is the square of pixels of a cell, and \<open>gap cs wt (u, d)\<close> the
  rectangle of wall between the cell \<open>u\<close> and its neighbour in direction \<open>d\<close>.
\<close>

definition rect :: "int \<Rightarrow> int \<Rightarrow> int \<Rightarrow> int \<Rightarrow> pixel set" where
  "rect y0 x0 h w = {y0..<y0 + h} \<times> {x0..<x0 + w}"

fun block :: "int \<Rightarrow> int \<Rightarrow> cell \<Rightarrow> pixel set" where
  "block cs wt (r, c) = rect (origin cs wt r) (origin cs wt c) cs cs"

fun gap :: "int \<Rightarrow> int \<Rightarrow> cell \<times> int \<Rightarrow> pixel set" where
  "gap cs wt ((r, c), d) =
     (if d = 0 then rect (origin cs wt r - wt) (origin cs wt c) wt cs
      else if d = 1 then rect (origin cs wt r) (origin cs wt c - wt) cs wt
      else if d = 2 then rect (origin cs wt r + cs) (origin cs wt c) wt cs
      else rect (origin cs wt r) (origin cs wt c + cs) cs wt)"

text \<open>
  \<open>region cs wt V E\<close> are the pixels of the blocks of the cells \<open>V\<close> and of the gaps \<open>E\<close>;
  \<open>inner w h cs wt\<close> are the pixels of the grid that lie outside the border of \<open>wt\<close> rows and
  columns on each side; \<open>corner cs wt u\<close> is the first pixel of the block of \<open>u\<close>.
\<close>

definition region :: "int \<Rightarrow> int \<Rightarrow> cell set \<Rightarrow> (cell \<times> int) set \<Rightarrow> pixel set" where
  "region cs wt V E = (\<Union>u\<in>V. block cs wt u) \<union> (\<Union>e\<in>E. gap cs wt e)"

definition inner :: "int \<Rightarrow> int \<Rightarrow> int \<Rightarrow> int \<Rightarrow> pixel set" where
  "inner w h cs wt =
     {(y, x). wt \<le> y \<and> y < pixel_dim h cs wt - wt \<and> wt \<le> x \<and> x < pixel_dim w cs wt - wt}"

definition corner :: "int \<Rightarrow> int \<Rightarrow> cell \<Rightarrow> pixel" where
  "corner cs wt u = (origin cs wt (fst u), origin cs wt (snd u))"

subsection \<open>Open pixels, walls and passages\<close>

text \<open>
  A pixel of the grid is open when it holds 0 and a wall when it holds 1; a pixel outside
  the grid is neither. \<open>walk g\<close> is one step between two open pixels that share a side,
  so that \<open>(walk g)\<^sup>*\<close> is reachability by flood fill.
\<close>

definition is_open :: "int list list \<Rightarrow> pixel \<Rightarrow> bool" where
  "is_open g p =
     (0 \<le> fst p \<and> fst p < int (length g) \<and> 0 \<le> snd p \<and>
      snd p < int (length (g ! nat (fst p))) \<and> g ! nat (fst p) ! nat (snd p) = 0)"

definition is_wall :: "int list list \<Rightarrow> pixel \<Rightarrow> bool" where
  "is_wall g p =
     (0 \<le> fst p \<and> fst p < int (length g) \<and> 0 \<le> snd p \<and>
      snd p < int (length (g ! nat (fst p))) \<and> g ! nat (fst p) ! nat (snd p) = 1)"

definition walk :: "int list list \<Rightarrow> (pixel \<times> pixel) set" where
  "walk g = {(p, q). is_open g p \<and> is_open g q \<and> \<bar>fst p - fst q\<bar> + \<bar>snd p - snd q\<bar> = 1}"

text \<open>
  \<open>passages m\<close> holds every pair of adjacent cells once, as the upper or left cell with the
  direction down (2) or right (3). A passage is open when every pixel of the gap between
  the two cells is open, and walled when every such pixel is a wall.
\<close>

definition passages :: "'g Maze \<Rightarrow> (cell \<times> int) set" where
  "passages m = {(u, d). u \<in> cells m \<and> (d = 2 \<or> d = 3) \<and> neighbour u d \<in> cells m}"

definition passage_open :: "'g Maze \<Rightarrow> cell \<times> int \<Rightarrow> bool" where
  "passage_open m e = (\<forall>p\<in>gap (CellSize m) (WallThickness m) e. is_open (Grid m) p)"

definition passage_walled :: "'g Maze \<Rightarrow> cell \<times> int \<Rightarrow> bool" where
  "passage_walled m e = (\<forall>p\<in>gap (CellSize m) (WallThickness m) e. is_wall (Grid m) p)"

subsection \<open>The store and the values it holds\<close>

text \<open>
  \<open>contents (s, m)\<close> is the instance read as values: the grid is the list of the arrays that its rows
  refer to, and likewise the visited matrix. \<open>unshared (s, m)\<close>: no two rows of the grid refer to the
  same array, and no two rows of the visited matrix.
\<close>

definition contents :: "store \<times> 'g Maze_ptr \<Rightarrow> 'g Maze" where
  "contents sm =
     (case sm of (s, m) \<Rightarrow>
        \<lparr>Grid = map (array_at (int_arrays s)) (array_at (slice_arrays s) (mGrid m)),
         Visited = map (array_at (bool_arrays s)) (array_at (slice_arrays s) (mVisited m)),
         Rnd = mRnd m, CellSize = mCellSize m, WallThickness = mWallThickness m,
         Cols = mCols m, Rows = mRows m\<rparr>)"

definition unshared :: "store \<times> 'g Maze_ptr \<Rightarrow> bool" where
  "unshared sm =
     (case sm of (s, m) \<Rightarrow>
        distinct (array_at (slice_arrays s) (mGrid m)) \<and>
        distinct (array_at (slice_arrays s) (mVisited m)))"

text \<open>
  \<open>in_place (s, m) (s', m')\<close>: from \<open>(s, m)\<close> to \<open>(s', m')\<close> the struct keeps its configuration and
  its two slices, no array of rows has changed, the store holds the same number of arrays
  of pixels and of flags with the same lengths, and the elements of an array have changed
  only if a row of the grid, or of the visited matrix, refers to it.
\<close>

definition in_place :: "store \<times> 'g Maze_ptr \<Rightarrow> store \<times> 'g Maze_ptr \<Rightarrow> bool" where
  "in_place sm sm' =
     (case (sm, sm') of ((s, m), (s', m')) \<Rightarrow>
        mGrid m' = mGrid m \<and> mVisited m' = mVisited m \<and>
        mCellSize m' = mCellSize m \<and> mWallThickness m' = mWallThickness m \<and>
        mCols m' = mCols m \<and> mRows m' = mRows m \<and>
        slice_arrays s' = slice_arrays s \<and>
        map length (int_arrays s') = map length (int_arrays s) \<and>
        map length (bool_arrays s') = map length (bool_arrays s) \<and>
        (\<forall>a<length (int_arrays s).
           Some a \<notin> set (array_at (slice_arrays s) (mGrid m)) \<longrightarrow>
           int_arrays s' ! a = int_arrays s ! a) \<and>
        (\<forall>a<length (bool_arrays s).
           Some a \<notin> set (array_at (slice_arrays s) (mVisited m)) \<longrightarrow>
           bool_arrays s' ! a = bool_arrays s ! a))"

section \<open>Notions used by the proofs\<close>

text \<open>
  \<open>paints m m'\<close>: \<open>m'\<close> is \<open>m\<close> with other values in the elements of its grid.
\<close>

definition paints :: "'g Maze \<Rightarrow> 'g Maze \<Rightarrow> bool" where
  "paints m m' = (\<exists>g. m' = m\<lparr>Grid := g\<rparr> \<and> map length g = map length (Grid m))"

text \<open>
  The openings that \<open>dfs\<close> carves are recorded as pairs of a cell and a direction. \<open>target e\<close>
  is the cell an opening leads to, \<open>opposite d\<close> the direction back, \<open>norm_edge e\<close> the opening
  between the same two cells written as a passage.
\<close>

definition opposite :: "int \<Rightarrow> int" where
  "opposite d = (d + 2) mod 4"

definition target :: "cell \<times> int \<Rightarrow> cell" where
  "target e = neighbour (fst e) (snd e)"

definition edge_rel :: "(cell \<times> int) set \<Rightarrow> (cell \<times> cell) set" where
  "edge_rel E = (\<lambda>e. (fst e, target e)) ` E"

definition norm_edge :: "cell \<times> int \<Rightarrow> cell \<times> int" where
  "norm_edge e = (if snd e = 2 \<or> snd e = 3 then e else (target e, opposite (snd e)))"

text \<open>
  \<open>tree V E\<close>: the openings \<open>E\<close> make the cells \<open>V\<close> a tree rooted at \<open>(0, 0)\<close>. Every
  opening joins two cells of \<open>V\<close>, every cell but the root is the target of exactly one
  opening, no opening is carved from both sides, and every cell is reached from the root.
\<close>

definition tree :: "cell set \<Rightarrow> (cell \<times> int) set \<Rightarrow> bool" where
  "tree V E =
     ((0, 0) \<in> V \<and>
      (\<forall>e\<in>E. fst e \<in> V \<and> snd e \<in> {0, 1, 2, 3} \<and> target e \<in> V) \<and>
      inj_on target E \<and> target ` E = V - {(0, 0)} \<and>
      (\<forall>e\<in>E. (target e, opposite (snd e)) \<notin> E) \<and>
      (\<forall>v\<in>V. ((0, 0), v) \<in> (edge_rel E)\<^sup>*))"

text \<open>
  The pixels that the loops of \<open>dfs\<close> compute for the cells \<open>V\<close> and the openings \<open>E\<close>,
  in Go's wrapping arithmetic, and the grid that has exactly the pixels of a set \<open>S\<close> open:
  \<open>R\<close> rows of \<open>C\<close> pixels, 0 on \<open>S\<close> and 1 elsewhere.
\<close>

definition wrap_px :: "pixel set \<Rightarrow> pixel set" where
  "wrap_px S = (\<lambda>(y, x). (wrap64 y, wrap64 x)) ` S"

definition carved :: "int \<Rightarrow> int \<Rightarrow> cell set \<Rightarrow> (cell \<times> int) set \<Rightarrow> pixel set" where
  "carved cs wt V E = wrap_px ((\<Union>u\<in>V. block cs wt u) \<union> (\<Union>e\<in>E. gap cs wt e))"

definition grid_is :: "nat \<Rightarrow> nat \<Rightarrow> pixel set \<Rightarrow> int list list \<Rightarrow> bool" where
  "grid_is R C S g =
     (length g = R \<and>
      (\<forall>i<R. length (g ! i) = C \<and>
         (\<forall>j<C. g ! i ! j = (if (int i, int j) \<in> S then 0 else 1))))"

text \<open>
  The invariant of \<open>dfs\<close>. An instance is well formed when its visited matrix has \<open>Rows\<close>
  rows of \<open>Cols\<close> flags and its random source is set. \<open>closed m v D\<close>: every neighbour of
  \<open>v\<close> in a direction of \<open>D\<close> that is a cell has been visited. \<open>ready\<close> is what holds when
  \<open>dfs\<close> is called on the cell \<open>rc\<close> with at most \<open>n\<close> cells unvisited, \<open>progress\<close> what holds
  after the directions \<open>D\<close> of the cell \<open>rc\<close> have been tried.
\<close>

definition well_formed :: "'g Maze \<Rightarrow> bool" where
  "well_formed m =
     (map length (Visited m) = replicate (nat (Rows m)) (nat (Cols m)) \<and> Rnd m \<noteq> None \<and>
      Rows m < 2 ^ 63 \<and> Cols m < 2 ^ 63)"

definition closed :: "'g Maze \<Rightarrow> cell \<Rightarrow> int set \<Rightarrow> bool" where
  "closed m v D = (\<forall>d\<in>D. neighbour v d \<in> cells m \<longrightarrow> neighbour v d \<in> visited_cells m)"

definition ready :: "nat \<Rightarrow> nat \<Rightarrow> nat \<Rightarrow> 'g Maze \<Rightarrow> (cell \<times> int) set \<Rightarrow> cell \<Rightarrow> bool" where
  "ready R C n m E rc =
     (well_formed m \<and> rc \<in> cells m \<and> rc \<notin> visited_cells m \<and>
      card (cells m - visited_cells m) \<le> n \<and>
      tree (insert rc (visited_cells m)) E \<and>
      grid_is R C (carved (CellSize m) (WallThickness m) (visited_cells m) E) (Grid m))"

definition progress ::
  "nat \<Rightarrow> nat \<Rightarrow> 'g Maze \<Rightarrow> (cell \<times> int) set \<Rightarrow> cell \<Rightarrow> int set \<Rightarrow> 'g Maze \<Rightarrow>
   (cell \<times> int) set \<Rightarrow> bool" where
  "progress R C m0 E0 rc D m E =
     (well_formed m \<and> frame m0 m \<and> insert rc (visited_cells m0) \<subseteq> visited_cells m \<and> E0 \<subseteq> E \<and>
      tree (visited_cells m) E \<and>
      grid_is R C (carved (CellSize m0) (WallThickness m0) (visited_cells m) E) (Grid m) \<and>
      (\<forall>v\<in>visited_cells m - insert rc (visited_cells m0). closed m v {0, 1, 2, 3}) \<and>
      closed m rc D)"

section \<open>Sample instances\<close>

text \<open>
  \<open>NewMaze(2, 1, 4, 1)\<close> with the values \<open>NewMaze\<close> returns, and the same instance after
  \<open>Generate(0, 0)\<close> with the source \<open>rot_source\<close>.
\<close>

definition demo_fresh :: "nat Maze" where
  "demo_fresh =
     \<lparr>Grid = [[0,0,0,0,0,0,0,0,0,0,0], [0,0,0,0,0,0,0,0,0,0,0], [0,0,0,0,0,0,0,0,0,0,0],
              [0,0,0,0,0,0,0,0,0,0,0], [0,0,0,0,0,0,0,0,0,0,0], [0,0,0,0,0,0,0,0,0,0,0]],
      Visited = [[False, False]], Rnd = None,
      CellSize = 4, WallThickness = 1, Cols = 2, Rows = 1\<rparr>"

definition demo_generated :: "nat Maze" where
  "demo_generated =
     \<lparr>Grid = [[1,1,1,1,1,1,1,1,1,1,1], [1,0,0,0,0,0,0,0,0,0,1], [1,0,0,0,0,0,0,0,0,0,1],
              [1,0,0,0,0,0,0,0,0,0,1], [1,0,0,0,0,0,0,0,0,0,1], [1,1,1,1,1,1,1,1,1,1,1]],
      Visited = [[True, True]], Rnd = Some 2,
      CellSize = 4, WallThickness = 1, Cols = 2, Rows = 1\<rparr>"

text \<open>\<open>NewMaze(0, 0, 4, 1)\<close>: no cell, and a grid of one pixel.\<close>

definition demo_empty :: "nat Maze" where
  "demo_empty =
     \<lparr>Grid = [[0]], Visited = [], Rnd = None,
      CellSize = 4, WallThickness = 1, Cols = 0, Rows = 0\<rparr>"

text \<open>
  \<open>NewMaze(2, 2, 1, 0)\<close>, a grid of four cells of one pixel with no wall between them, and the
  instance after \<open>Generate(0, 1)\<close> with the source \<open>rot_source\<close>.
\<close>

definition demo_flat :: "nat Maze" where
  "demo_flat =
     \<lparr>Grid = [[0, 0], [0, 0]], Visited = [[False, False], [False, False]], Rnd = None,
      CellSize = 1, WallThickness = 0, Cols = 2, Rows = 2\<rparr>"

definition demo_flat_generated :: "nat Maze" where
  "demo_flat_generated =
     \<lparr>Grid = [[0, 0], [0, 0]], Visited = [[True, True], [True, True]], Rnd = Some 5,
      CellSize = 1, WallThickness = 0, Cols = 2, Rows = 2\<rparr>"

text \<open>
  Three configurations whose pixel dimensions overflow \<open>int\<close>.
  \<open>NewMaze(1, 1, 4, 9223372036854775807)\<close> computes \<open>4 + 2*(2^63 - 1) = 2^64 + 2\<close>, which wraps to 2, and
  allocates a grid of 2 by 2 pixels; after \<open>Generate(0, 0)\<close> every pixel is a wall.
  \<open>NewMaze(3, 3, 6148914691236517205, 1)\<close> computes \<open>3*6148914691236517205 + 4 = 2^64 + 3\<close>, which wraps to 3, and
  \<open>NewMaze(2, 2, 1, 6148914691236517206)\<close> computes \<open>2 + 3*6148914691236517206 = 2^64 + 4\<close>, which wraps to 4.
\<close>

definition demo_tight :: "nat Maze" where
  "demo_tight =
     \<lparr>Grid = [[0, 0], [0, 0]], Visited = [[False]], Rnd = None,
      CellSize = 4, WallThickness = 9223372036854775807, Cols = 1, Rows = 1\<rparr>"

definition demo_tight_generated :: "nat Maze" where
  "demo_tight_generated =
     \<lparr>Grid = [[1, 1], [1, 1]], Visited = [[True]], Rnd = Some 1,
      CellSize = 4, WallThickness = 9223372036854775807, Cols = 1, Rows = 1\<rparr>"

definition demo_wide :: "nat Maze" where
  "demo_wide =
     \<lparr>Grid = [[0, 0, 0], [0, 0, 0], [0, 0, 0]],
      Visited = [[False, False, False], [False, False, False], [False, False, False]],
      Rnd = None, CellSize = 6148914691236517205, WallThickness = 1, Cols = 3, Rows = 3\<rparr>"

definition demo_thick :: "nat Maze" where
  "demo_thick =
     \<lparr>Grid = [[0, 0, 0, 0], [0, 0, 0, 0], [0, 0, 0, 0], [0, 0, 0, 0]],
      Visited = [[False, False], [False, False]], Rnd = None,
      CellSize = 1, WallThickness = 6148914691236517206, Cols = 2, Rows = 2\<rparr>"

text \<open>
  A store that holds an array of pixels and an array of flags of some other owner, the
  store and the struct that \<open>NewMaze(2, 1, 4, 1)\<close> returns in it, and the two after
  \<open>Generate(0, 0)\<close> with the source \<open>rot_source\<close>.
\<close>

definition other_store :: store where
  "other_store = \<lparr>slice_arrays = [], int_arrays = [[7, 7]], bool_arrays = [[True]]\<rparr>"

definition demo_store :: store where
  "demo_store =
     \<lparr>slice_arrays = [[Some 1, Some 2, Some 3, Some 4, Some 5, Some 6], [Some 1]],
      int_arrays = [[7, 7],
        [0,0,0,0,0,0,0,0,0,0,0], [0,0,0,0,0,0,0,0,0,0,0], [0,0,0,0,0,0,0,0,0,0,0],
        [0,0,0,0,0,0,0,0,0,0,0], [0,0,0,0,0,0,0,0,0,0,0], [0,0,0,0,0,0,0,0,0,0,0]],
      bool_arrays = [[True], [False, False]]\<rparr>"

definition demo_ptr :: "nat Maze_ptr" where
  "demo_ptr =
     \<lparr>mGrid = Some 0, mVisited = Some 1, mRnd = None, mCellSize = 4, mWallThickness = 1,
      mCols = 2, mRows = 1\<rparr>"

definition demo_store_generated :: store where
  "demo_store_generated =
     \<lparr>slice_arrays = [[Some 1, Some 2, Some 3, Some 4, Some 5, Some 6], [Some 1]],
      int_arrays = [[7, 7],
        [1,1,1,1,1,1,1,1,1,1,1], [1,0,0,0,0,0,0,0,0,0,1], [1,0,0,0,0,0,0,0,0,0,1],
        [1,0,0,0,0,0,0,0,0,0,1], [1,0,0,0,0,0,0,0,0,0,1], [1,1,1,1,1,1,1,1,1,1,1]],
      bool_arrays = [[True], [True, True]]\<rparr>"

definition demo_ptr_generated :: "nat Maze_ptr" where
  "demo_ptr_generated =
     \<lparr>mGrid = Some 0, mVisited = Some 1, mRnd = Some 2, mCellSize = 4, mWallThickness = 1,
      mCols = 2, mRows = 1\<rparr>"

section \<open>Lemmas\<close>

subsection \<open>Results and wrapping arithmetic\<close>

lemma bind_Done_iff:
  "bind x f = Done y \<longleftrightarrow> (\<exists>v. x = Done v \<and> f v = Done y)"
  by (cases x) auto

lemma wrap64_id: "- (2 ^ 63) \<le> x \<Longrightarrow> x < 2 ^ 63 \<Longrightarrow> wrap64 x = x"
  by (simp add: wrap64_def)

lemma wrap64_range: "- (2 ^ 63) \<le> wrap64 x \<and> wrap64 x < 2 ^ 63"
proof -
  have "0 \<le> (x + 2 ^ 63) mod (2 ^ 64 :: int)" "(x + 2 ^ 63) mod (2 ^ 64 :: int) < 2 ^ 64"
    by simp_all
  then show ?thesis unfolding wrap64_def by simp
qed

lemma wrap64_add_left [simp]: "wrap64 (wrap64 a + b) = wrap64 (a + b)"
proof -
  have "(wrap64 a + b + 2 ^ 63) mod 2 ^ 64 = ((a + 2 ^ 63) mod 2 ^ 64 + b) mod (2 ^ 64 :: int)"
    by (simp add: wrap64_def algebra_simps)
  also have "\<dots> = (a + 2 ^ 63 + b) mod 2 ^ 64"
    by (simp add: mod_add_left_eq)
  finally show ?thesis by (simp add: wrap64_def algebra_simps)
qed

lemma wrap64_add_right [simp]: "wrap64 (a + wrap64 b) = wrap64 (a + b)"
  using wrap64_add_left [of b a] by (simp add: add.commute)

lemma wrap64_diff_left [simp]: "wrap64 (wrap64 a - b) = wrap64 (a - b)"
  using wrap64_add_left [of a "- b"] by simp

lemma wrap64_mult_left [simp]: "wrap64 (wrap64 a * b) = wrap64 (a * b)"
proof -
  have "(wrap64 a * b + 2 ^ 63) mod 2 ^ 64
      = (((a + 2 ^ 63) mod 2 ^ 64) * b + (2 ^ 63 - 2 ^ 63 * b)) mod (2 ^ 64 :: int)"
    by (simp add: wrap64_def algebra_simps)
  also have "\<dots> = ((a + 2 ^ 63) * b + (2 ^ 63 - 2 ^ 63 * b)) mod 2 ^ 64"
    by (metis mod_add_left_eq mod_mult_left_eq)
  also have "\<dots> = (a * b + 2 ^ 63) mod 2 ^ 64"
    by (simp add: algebra_simps)
  finally show ?thesis by (simp add: wrap64_def)
qed

lemma wrap64_mult_right [simp]: "wrap64 (a * wrap64 b) = wrap64 (a * b)"
  using wrap64_mult_left [of b a] by (simp add: mult.commute)

lemma wrap64_idem [simp]: "wrap64 (wrap64 a) = wrap64 a"
  using wrap64_add_left [of a 0] by simp

lemma dim_wrap:
  "iadd (imul n cs) (imul (iadd n 1) wt) = wrap64 (n * cs + (n + 1) * wt)"
  by (simp add: iadd_def imul_def)

lemma origin_wrap:
  "iadd wt (imul r (iadd cs wt)) = wrap64 (wt + r * (cs + wt))"
  by (simp add: iadd_def imul_def)

subsection \<open>Allocation\<close>

lemma fill_rows:
  "length m = n \<Longrightarrow> k \<le> n \<Longrightarrow>
   for_each [k..<n] (\<lambda>i m. Done (m[i := row])) m = Done (take k m @ replicate (n - k) row)"
proof (induction "n - k" arbitrary: k m)
  case 0
  then show ?case by simp
next
  case (Suc d)
  then have lt: "k < n" by simp
  have len: "length (m[k := row]) = n" using Suc.prems by simp
  have "for_each [k..<n] (\<lambda>i m. Done (m[i := row])) m
      = for_each [Suc k..<n] (\<lambda>i m. Done (m[i := row])) (m[k := row])"
    using lt by (simp add: upt_conv_Cons)
  also have "\<dots> = Done (take (Suc k) (m[k := row]) @ replicate (n - Suc k) row)"
    using Suc.hyps(1) [of "Suc k" "m[k := row]"] Suc.hyps(2) len lt by simp
  also have "take (Suc k) (m[k := row]) @ replicate (n - Suc k) row
      = take k m @ replicate (n - k) row"
  proof -
    have "take (Suc k) (m[k := row]) = take k m @ [row]"
      using lt Suc.prems by (simp add: take_Suc_conv_app_nth)
    moreover have "replicate (n - k) row = row # replicate (n - Suc k) row"
      using lt by (metis Suc_diff_Suc replicate_Suc)
    ultimately show ?thesis by simp
  qed
  finally show ?case .
qed

lemma alloc_rows_ok:
  "for_each [0..<n] (\<lambda>i m. Done (m[i := row])) (replicate n e) = Done (replicate n row)"
  using fill_rows [of "replicate n e" n 0 row] by simp

lemma alloc_rows_panic:
  "for_each [0..<n] (\<lambda>i m. Panic p) (replicate n e) = (if 0 < n then Panic p else Done [])"
  by (cases n) (simp_all add: upt_conv_Cons del: upt_Suc)

lemma make_slice_nonneg: "\<not> n < 0 \<Longrightarrow> make_slice n z = Done (replicate (nat n) z)"
  by (simp add: make_slice_def)

lemma make_slice_neg: "n < 0 \<Longrightarrow> make_slice n z = Panic NegativeLen"
  by (simp add: make_slice_def)

lemma NewMaze_eq:
  "NewMaze w h cs wt =
     (let R = wrap64 (h * cs + (h + 1) * wt); C = wrap64 (w * cs + (w + 1) * wt) in
      if R < 0 \<or> (0 < R \<and> C < 0) \<or> h < 0 \<or> (0 < h \<and> w < 0) then Panic NegativeLen
      else Done \<lparr>Grid = replicate (nat R) (replicate (nat C) 0),
                 Visited = replicate (nat h) (replicate (nat w) False),
                 Rnd = None, CellSize = cs, WallThickness = wt, Cols = w, Rows = h\<rparr>)"
  unfolding NewMaze_def dim_wrap Let_def
  by (cases "wrap64 (h * cs + (h + 1) * wt) < 0"; cases "wrap64 (w * cs + (w + 1) * wt) < 0";
      cases "h < 0"; cases "w < 0")
    (auto simp: make_slice_nonneg make_slice_neg alloc_rows_ok alloc_rows_panic)

subsection \<open>What a run leaves unchanged\<close>

lemma frame_refl: "frame m m"
  by (simp add: frame_def)

lemma frame_trans: "frame a b \<Longrightarrow> frame b c \<Longrightarrow> frame a c"
  by (simp add: frame_def)

lemma store2_lengths: "store2 xss i j v = Done xss' \<Longrightarrow> map length xss' = map length xss"
  by (auto simp: store2_def map_update list_update_same_conv split: if_splits)

lemma for_each_rel:
  assumes step: "\<And>x s s'. x \<in> set xs \<Longrightarrow> f x s = Done s' \<Longrightarrow> P s s'"
    and refl: "\<And>s. P s s"
    and trans: "\<And>a b c. P a b \<Longrightarrow> P b c \<Longrightarrow> P a c"
    and run: "for_each xs f s = Done s'"
  shows "P s s'"
  using step run
proof (induction xs arbitrary: s)
  case Nil
  then show ?case using refl by simp
next
  case (Cons x xs)
  from Cons.prems(2) obtain s1 where s1: "f x s = Done s1" "for_each xs f s1 = Done s'"
    by (auto simp: bind_Done_iff)
  have "P s s1" using Cons.prems(1) [of x s s1] s1(1) by simp
  moreover have "P s1 s'"
  proof (rule Cons.IH [OF _ s1(2)])
    fix y t t'
    assume "y \<in> set xs" "f y t = Done t'"
    then show "P t t'" using Cons.prems(1) [of y t t'] by simp
  qed
  ultimately show ?case using trans by blast
qed

lemma paints_refl: "paints m m"
  by (auto simp: paints_def intro: exI [of _ "Grid m"])

lemma paints_trans: "paints a b \<Longrightarrow> paints b c \<Longrightarrow> paints a c"
  by (auto simp: paints_def)

lemma paints_frame: "paints m m' \<Longrightarrow> frame m m'"
  by (auto simp: paints_def frame_def)

lemma set_path_paints: "set_path m wy wx = Done m' \<Longrightarrow> paints m m'"
  by (auto simp: set_path_def in_bounds_def bind_Done_iff paints_def dest: store2_lengths
      split: if_splits intro: exI [of _ "Grid m"])

lemma for_each_paints:
  assumes "\<And>x s s'. f x s = Done s' \<Longrightarrow> paints s s'" and "for_each xs f s = Done s'"
  shows "paints s s'"
  by (rule for_each_rel [where P = paints and f = f and xs = xs])
     (auto intro: assms paints_refl paints_trans)

lemma fill_cell_paints: "fill_cell m sy sx = Done m' \<Longrightarrow> paints m m'"
  unfolding fill_cell_def
  by (erule for_each_paints [rotated], erule for_each_paints [rotated], erule set_path_paints)

lemma open_up_paints: "open_up m sy sx = Done m' \<Longrightarrow> paints m m'"
  unfolding open_up_def
  by (erule for_each_paints [rotated], erule for_each_paints [rotated], erule set_path_paints)

lemma open_left_paints: "open_left m sy sx = Done m' \<Longrightarrow> paints m m'"
  unfolding open_left_def
  by (erule for_each_paints [rotated], erule for_each_paints [rotated], erule set_path_paints)

lemma open_down_paints: "open_down m sy sx = Done m' \<Longrightarrow> paints m m'"
  unfolding open_down_def
  by (erule for_each_paints [rotated], erule for_each_paints [rotated], erule set_path_paints)

lemma open_right_paints: "open_right m sy sx = Done m' \<Longrightarrow> paints m m'"
  unfolding open_right_def
  by (erule for_each_paints [rotated], erule for_each_paints [rotated], erule set_path_paints)

lemma visit_frame:
  assumes rec: "\<And>m r c m'. rec m r c = Done m' \<Longrightarrow> frame m m'"
    and wall: "\<And>m m'. open_wall m = Done m' \<Longrightarrow> paints m m'"
    and run: "visit rec inside nr nc open_wall m = Done m'"
  shows "frame m m'"
proof (cases "inside")
  case False
  then show ?thesis using run by (simp add: visit_def frame_refl)
next
  case True
  then obtain v where v: "load2 (Visited m) nr nc = Done v"
    and rest: "(if \<not> v then bind (open_wall m) (\<lambda>m. rec m nr nc) else Done m) = Done m'"
    using run by (auto simp: visit_def bind_Done_iff)
  show ?thesis
  proof (cases v)
    case True
    then show ?thesis using rest by (simp add: frame_refl)
  next
    case False
    then obtain m1 where "open_wall m = Done m1" "rec m1 nr nc = Done m'"
      using rest by (auto simp: bind_Done_iff)
    then show ?thesis using wall rec paints_frame frame_trans by blast
  qed
qed

lemma switch_dir_cases:
  assumes "switch_dir rec r c sy sx dir m = Done m'"
  obtains
      (up) "dir = 0"
        "visit rec (isub r 1 \<ge> 0) (isub r 1) c (\<lambda>m. open_up m sy sx) m = Done m'"
    | (left) "dir = 1"
        "visit rec (isub c 1 \<ge> 0) r (isub c 1) (\<lambda>m. open_left m sy sx) m = Done m'"
    | (down) "dir = 2"
        "visit rec (iadd r 1 < Rows m) (iadd r 1) c (\<lambda>m. open_down m sy sx) m = Done m'"
    | (right) "dir = 3"
        "visit rec (iadd c 1 < Cols m) r (iadd c 1) (\<lambda>m. open_right m sy sx) m = Done m'"
    | (none) "dir \<noteq> 0" "dir \<noteq> 1" "dir \<noteq> 2" "dir \<noteq> 3" "m' = m"
proof (cases "dir = 0")
  case True
  then show ?thesis using assms up by (simp add: switch_dir_def)
next
  case n0: False
  show ?thesis
  proof (cases "dir = 1")
    case True
    then show ?thesis using assms left by (simp add: switch_dir_def)
  next
    case n1: False
    show ?thesis
    proof (cases "dir = 2")
      case True
      then show ?thesis using assms down by (simp add: switch_dir_def)
    next
      case n2: False
      show ?thesis
      proof (cases "dir = 3")
        case True
        then show ?thesis using assms right by (simp add: switch_dir_def)
      next
        case False
        then show ?thesis using assms none n0 n1 n2 by (simp add: switch_dir_def)
      qed
    qed
  qed
qed

lemma switch_dir_frame:
  assumes rec: "\<And>m r c m'. rec m r c = Done m' \<Longrightarrow> frame m m'"
    and run: "switch_dir rec r c sy sx dir m = Done m'"
  shows "frame m m'"
  using run
proof (cases rule: switch_dir_cases)
  case up
  show ?thesis by (rule visit_frame [OF _ _ up(2)]) (erule rec, erule open_up_paints)
next
  case left
  show ?thesis by (rule visit_frame [OF _ _ left(2)]) (erule rec, erule open_left_paints)
next
  case down
  show ?thesis by (rule visit_frame [OF _ _ down(2)]) (erule rec, erule open_down_paints)
next
  case right
  show ?thesis by (rule visit_frame [OF _ _ right(2)]) (erule rec, erule open_right_paints)
next
  case none
  then show ?thesis by (simp add: frame_refl)
qed

lemma dfs_Suc_DoneE:
  assumes "dfs src (Suc n) m r c = Done m'"
  obtains vis m2 g where
    "store2 (Visited m) r c True = Done vis"
    "fill_cell (m\<lparr>Visited := vis\<rparr>)
       (iadd (WallThickness m) (imul r (iadd (CellSize m) (WallThickness m))))
       (iadd (WallThickness m) (imul c (iadd (CellSize m) (WallThickness m)))) = Done m2"
    "Rnd m2 = Some g"
    "for_each (fst (Perm src g 4))
       (switch_dir (dfs src n) r c
          (iadd (WallThickness m) (imul r (iadd (CellSize m) (WallThickness m))))
          (iadd (WallThickness m) (imul c (iadd (CellSize m) (WallThickness m)))))
       (m2\<lparr>Rnd := Some (snd (Perm src g 4))\<rparr>) = Done m'"
  using assms
  by (auto simp: bind_Done_iff Let_def case_prod_beta split: option.splits)

lemma dfs_frame: "dfs src n m r c = Done m' \<Longrightarrow> frame m m'"
proof (induction n arbitrary: m r c m')
  case 0
  then show ?case by simp
next
  case (Suc n)
  let ?sy = "iadd (WallThickness m) (imul r (iadd (CellSize m) (WallThickness m)))"
  let ?sx = "iadd (WallThickness m) (imul c (iadd (CellSize m) (WallThickness m)))"
  from Suc.prems obtain vis m2 g where
    vis: "store2 (Visited m) r c True = Done vis"
    and fill: "fill_cell (m\<lparr>Visited := vis\<rparr>) ?sy ?sx = Done m2"
    and loop: "for_each (fst (Perm src g 4)) (switch_dir (dfs src n) r c ?sy ?sx)
                 (m2\<lparr>Rnd := Some (snd (Perm src g 4))\<rparr>) = Done m'"
    by (rule dfs_Suc_DoneE)
  have 1: "frame m (m\<lparr>Visited := vis\<rparr>)"
    using store2_lengths [OF vis] by (simp add: frame_def)
  have 2: "frame (m\<lparr>Visited := vis\<rparr>) m2"
    using fill_cell_paints [OF fill] by (rule paints_frame)
  have 3: "frame m2 (m2\<lparr>Rnd := Some (snd (Perm src g 4))\<rparr>)"
    by (simp add: frame_def)
  have 4: "frame (m2\<lparr>Rnd := Some (snd (Perm src g 4))\<rparr>) m'"
    by (rule for_each_rel [where P = frame, OF _ frame_refl frame_trans loop])
       (erule switch_dir_frame [OF Suc.IH, rotated])
  show ?case using 1 2 3 4 frame_trans by blast
qed

lemma Generate_frame: "Generate src n m seed1 seed2 = Done m' \<Longrightarrow> frame m m'"
proof -
  assume "Generate src n m seed1 seed2 = Done m'"
  then have "frame (m\<lparr>Rnd := Some (NewPCG src seed1 seed2),
         Grid := map (\<lambda>row. map (\<lambda>_. 1) row) (Grid m),
         Visited := map (\<lambda>row. map (\<lambda>_. False) row) (Visited m)\<rparr>) m'"
    unfolding Generate_def Let_def by (simp add: dfs_frame)
  then show ?thesis by (simp add: frame_def comp_def)
qed

lemma regenerated_frame: "regenerated src m0 m \<Longrightarrow> frame m0 m"
proof (induction rule: regenerated.induct)
  case fresh
  show ?case by (rule frame_refl)
next
  case (again m n seed1 seed2 m')
  from again.IH Generate_frame [OF again.hyps(2)] show ?case by (rule frame_trans)
qed

lemma map_const_lengths:
  "map (map (\<lambda>_. c)) zs = map (\<lambda>n. replicate n c) (map length zs)"
  by (simp add: map_replicate_const comp_def)

lemma map_const_cong:
  "map length xs = map length ys \<Longrightarrow> map (map (\<lambda>_. c)) xs = map (map (\<lambda>_. c)) ys"
  by (simp add: map_const_lengths)

lemma Generate_cong: "frame m0 m \<Longrightarrow> Generate src n m seed1 seed2 = Generate src n m0 seed1 seed2"
proof -
  assume f: "frame m0 m"
  have g: "map (map (\<lambda>_. 1 :: int)) (Grid m) = map (map (\<lambda>_. 1)) (Grid m0)"
    and v: "map (map (\<lambda>_. False)) (Visited m) = map (map (\<lambda>_. False)) (Visited m0)"
    using f by (auto simp: frame_def intro: map_const_cong)
  have "m\<lparr>Rnd := Some (NewPCG src seed1 seed2),
         Grid := map (\<lambda>row. map (\<lambda>_. 1) row) (Grid m),
         Visited := map (\<lambda>row. map (\<lambda>_. False) row) (Visited m)\<rparr>
      = m0\<lparr>Rnd := Some (NewPCG src seed1 seed2),
         Grid := map (\<lambda>row. map (\<lambda>_. 1) row) (Grid m0),
         Visited := map (\<lambda>row. map (\<lambda>_. False) row) (Visited m0)\<rparr>"
    using f g v by (intro Maze.equality) (simp_all add: frame_def)
  then show ?thesis by (simp add: Generate_def Let_def)
qed

subsection \<open>The pixels that the loops open\<close>

lemma set_range_int: "set (range_int n) = {0..<n}"
  by (auto simp: range_int_def)

lemma set_path_paint:
  assumes "grid_is R C S (Grid m)"
  shows "\<exists>g'. set_path m wy wx = Done (m\<lparr>Grid := g'\<rparr>) \<and> grid_is R C (insert (wy, wx) S) g'"
proof (cases "in_bounds (Grid m) wy wx")
  case inb: True
  then have True: "wy \<ge> 0 \<and> wy < int (length (Grid m)) \<and> wx \<ge> 0 \<and> wx < int (length (Grid m ! 0))"
    by (simp add: in_bounds_def)
  then have R: "0 < R" "nat wy < R" using assms by (auto simp: grid_is_def)
  then have C: "length (Grid m ! 0) = C" "length (Grid m ! nat wy) = C"
    using assms by (auto simp: grid_is_def)
  let ?g = "(Grid m)[nat wy := (Grid m ! nat wy)[nat wx := 0]]"
  have run: "set_path m wy wx = Done (m\<lparr>Grid := ?g\<rparr>)"
    using inb True C by (simp add: set_path_def store2_def)
  have "grid_is R C (insert (wy, wx) S) ?g"
    unfolding grid_is_def
  proof (intro conjI allI impI)
    show "length ?g = R" using assms by (simp add: grid_is_def)
  next
    fix i assume i: "i < R"
    have "length (Grid m) = R" "length (Grid m ! i) = C"
      using assms i by (auto simp: grid_is_def)
    then show "length (?g ! i) = C"
      using i C by (cases "i = nat wy") simp_all
  next
    fix i j assume ij: "i < R" "j < C"
    have len: "length (Grid m) = R" using assms by (simp add: grid_is_def)
    have eq: "(int i, int j) = (wy, wx) \<longleftrightarrow> i = nat wy \<and> j = nat wx"
      using True by auto
    show "?g ! i ! j = (if (int i, int j) \<in> insert (wy, wx) S then 0 else 1)"
    proof (cases "i = nat wy")
      case True
      then show ?thesis
        using ij len C assms eq by (auto simp: grid_is_def nth_list_update)
    next
      case False
      then show ?thesis
        using ij len assms eq by (auto simp: grid_is_def nth_list_update)
    qed
  qed
  then show ?thesis using run by blast
next
  case oob: False
  then have False: "\<not> (wy \<ge> 0 \<and> wy < int (length (Grid m)) \<and> wx \<ge> 0 \<and> wx < int (length (Grid m ! 0)))"
    by (simp add: in_bounds_def)
  from oob have "set_path m wy wx = Done m"
    unfolding set_path_def by (simp only: if_False)
  then have run: "set_path m wy wx = Done (m\<lparr>Grid := Grid m\<rparr>)"
    by simp
  have "\<And>i j. i < R \<Longrightarrow> j < C \<Longrightarrow> (int i, int j) \<noteq> (wy, wx)"
  proof
    fix i j assume ij: "i < R" "j < C" "(int i, int j) = (wy, wx)"
    then have "length (Grid m) = R" "length (Grid m ! 0) = C"
      using assms by (auto simp: grid_is_def)
    then show False using False ij by auto
  qed
  then have "grid_is R C (insert (wy, wx) S) (Grid m)"
    using assms by (auto simp: grid_is_def)
  then show ?thesis using run by blast
qed

lemma paint_loop1:
  assumes "grid_is R C S (Grid m)"
    and "\<And>i g. fy i (m\<lparr>Grid := g\<rparr>) = fy i m" and "\<And>i g. fx i (m\<lparr>Grid := g\<rparr>) = fx i m"
  shows "\<exists>g'. for_each xs (\<lambda>i m. set_path m (fy i m) (fx i m)) m = Done (m\<lparr>Grid := g'\<rparr>) \<and>
              grid_is R C (S \<union> (\<lambda>i. (fy i m, fx i m)) ` set xs) g'"
  using assms
proof (induction xs arbitrary: m S)
  case Nil
  have "m = m\<lparr>Grid := Grid m\<rparr>" by simp
  then show ?case using Nil(1) by (metis Un_empty_right for_each.simps(1) image_empty list.set(1))
next
  case (Cons x xs)
  from set_path_paint [OF Cons.prems(1), of "fy x m" "fx x m"] obtain g1 where
    g1: "set_path m (fy x m) (fx x m) = Done (m\<lparr>Grid := g1\<rparr>)"
        "grid_is R C (insert (fy x m, fx x m) S) g1" by blast
  let ?m1 = "m\<lparr>Grid := g1\<rparr>"
  have a: "grid_is R C (insert (fy x m, fx x m) S) (Grid ?m1)" using g1(2) by simp
  have b: "\<And>i g. fy i (?m1\<lparr>Grid := g\<rparr>) = fy i ?m1" "\<And>i g. fx i (?m1\<lparr>Grid := g\<rparr>) = fx i ?m1"
    using Cons.prems(2,3) by simp_all
  from Cons.IH [OF a b] obtain g2 where
    g2: "for_each xs (\<lambda>i m. set_path m (fy i m) (fx i m)) ?m1 = Done (?m1\<lparr>Grid := g2\<rparr>)"
        "grid_is R C (insert (fy x m, fx x m) S \<union> (\<lambda>i. (fy i ?m1, fx i ?m1)) ` set xs) g2"
    by blast
  have "insert (fy x m, fx x m) S \<union> (\<lambda>i. (fy i ?m1, fx i ?m1)) ` set xs
      = S \<union> (\<lambda>i. (fy i m, fx i m)) ` set (x # xs)"
    using Cons.prems(2,3) by auto
  then show ?case using g1(1) g2 by auto
qed

lemma paint_loop2:
  assumes "grid_is R C S (Grid m)"
    and "\<And>a i g. fy a i (m\<lparr>Grid := g\<rparr>) = fy a i m"
    and "\<And>a i g. fx a i (m\<lparr>Grid := g\<rparr>) = fx a i m"
  shows "\<exists>g'. for_each ys (\<lambda>a. for_each xs (\<lambda>i m. set_path m (fy a i m) (fx a i m))) m
                = Done (m\<lparr>Grid := g'\<rparr>) \<and>
              grid_is R C (S \<union> (\<lambda>(a, i). (fy a i m, fx a i m)) ` (set ys \<times> set xs)) g'"
  using assms
proof (induction ys arbitrary: m S)
  case Nil
  have "m = m\<lparr>Grid := Grid m\<rparr>" by simp
  then show ?case using Nil(1)
    by (metis Sigma_empty1 Un_empty_right for_each.simps(1) image_empty list.set(1))
next
  case (Cons x ys)
  from paint_loop1 [OF Cons.prems(1), of "fy x" "fx x" xs] Cons.prems(2,3) obtain g1 where
    g1: "for_each xs (\<lambda>i m. set_path m (fy x i m) (fx x i m)) m = Done (m\<lparr>Grid := g1\<rparr>)"
        "grid_is R C (S \<union> (\<lambda>i. (fy x i m, fx x i m)) ` set xs) g1" by blast
  let ?m1 = "m\<lparr>Grid := g1\<rparr>"
  have a: "grid_is R C (S \<union> (\<lambda>i. (fy x i m, fx x i m)) ` set xs) (Grid ?m1)"
    using g1(2) by simp
  have b: "\<And>a i g. fy a i (?m1\<lparr>Grid := g\<rparr>) = fy a i ?m1"
    "\<And>a i g. fx a i (?m1\<lparr>Grid := g\<rparr>) = fx a i ?m1"
    using Cons.prems(2,3) by simp_all
  from Cons.IH [OF a b] obtain g2 where
    g2: "for_each ys (\<lambda>a. for_each xs (\<lambda>i m. set_path m (fy a i m) (fx a i m))) ?m1
           = Done (?m1\<lparr>Grid := g2\<rparr>)"
        "grid_is R C (S \<union> (\<lambda>i. (fy x i m, fx x i m)) ` set xs
            \<union> (\<lambda>(a, i). (fy a i ?m1, fx a i ?m1)) ` (set ys \<times> set xs)) g2" by blast
  have "S \<union> (\<lambda>i. (fy x i m, fx x i m)) ` set xs
          \<union> (\<lambda>(a, i). (fy a i ?m1, fx a i ?m1)) ` (set ys \<times> set xs)
      = S \<union> (\<lambda>(a, i). (fy a i m, fx a i m)) ` (set (x # ys) \<times> set xs)"
    using Cons.prems(2,3) by auto
  then show ?case using g1(1) g2 by auto
qed

lemma rect_image:
  "rect y0 x0 h w = (\<lambda>(y, x). (y0 + y, x0 + x)) ` ({0..<h} \<times> {0..<w})"
proof (intro set_eqI iffI)
  fix p assume "p \<in> rect y0 x0 h w"
  then obtain y x where p: "p = (y, x)" "y0 \<le> y" "y < y0 + h" "x0 \<le> x" "x < x0 + w"
    by (auto simp: rect_def)
  then have "(y - y0, x - x0) \<in> {0..<h} \<times> {0..<w}" by simp
  moreover have "p = (\<lambda>(y, x). (y0 + y, x0 + x)) (y - y0, x - x0)" using p by simp
  ultimately show "p \<in> (\<lambda>(y, x). (y0 + y, x0 + x)) ` ({0..<h} \<times> {0..<w})"
    by (rule rev_image_eqI)
next
  fix p assume "p \<in> (\<lambda>(y, x). (y0 + y, x0 + x)) ` ({0..<h} \<times> {0..<w})"
  then show "p \<in> rect y0 x0 h w" by (auto simp: rect_def)
qed

lemma wrap_rect_yx:
  "(\<lambda>(y, x). (wrap64 (y0 + y), wrap64 (x0 + x))) ` ({0..<h} \<times> {0..<w}) = wrap_px (rect y0 x0 h w)"
  by (simp add: rect_image wrap_px_def image_image case_prod_beta)

lemma wrap_rect_xy:
  "(\<lambda>(x, y). (wrap64 (y0 + y), wrap64 (x0 + x))) ` ({0..<w} \<times> {0..<h}) = wrap_px (rect y0 x0 h w)"
proof -
  have "(\<lambda>(x, y). (wrap64 (y0 + y), wrap64 (x0 + x))) ` ({0..<w} \<times> {0..<h})
      = (\<lambda>(y, x). (wrap64 (y0 + y), wrap64 (x0 + x))) ` ({0..<h} \<times> {0..<w})"
    by (auto simp: image_iff)
  then show ?thesis by (simp add: wrap_rect_yx)
qed

lemma origin_code:
  "iadd wt (imul k (iadd cs wt)) = wrap64 (origin cs wt k)"
  by (simp add: iadd_def imul_def origin_def)

lemma fill_cell_carves:
  assumes "grid_is R C S (Grid m)" "CellSize m = cs" "WallThickness m = wt"
  shows "\<exists>g'. fill_cell m (wrap64 (origin cs wt r)) (wrap64 (origin cs wt c)) = Done (m\<lparr>Grid := g'\<rparr>) \<and>
              grid_is R C (S \<union> wrap_px (block cs wt (r, c))) g'"
  using paint_loop2 [OF assms(1), where ys = "range_int cs" and xs = "range_int cs" and fy =
      "\<lambda>y x m. iadd (wrap64 (origin cs wt r)) y" and fx = "\<lambda>y x m. iadd (wrap64 (origin cs wt c)) x"]
  by (simp add: fill_cell_def assms iadd_def set_range_int wrap_rect_yx)

lemma open_up_carves:
  assumes "grid_is R C S (Grid m)" "CellSize m = cs" "WallThickness m = wt"
  shows "\<exists>g'. open_up m (wrap64 (origin cs wt r)) (wrap64 (origin cs wt c)) = Done (m\<lparr>Grid := g'\<rparr>) \<and>
              grid_is R C (S \<union> wrap_px (gap cs wt ((r, c), 0))) g'"
  using paint_loop2 [OF assms(1), where ys = "range_int cs" and xs = "range_int wt" and fy =
      "\<lambda>x y m. iadd (isub (wrap64 (origin cs wt r)) (WallThickness m)) y" and fx = "\<lambda>x y m. iadd (wrap64 (origin cs wt c)) x"]
  by (simp add: open_up_def assms iadd_def isub_def set_range_int wrap_rect_xy)

lemma open_left_carves:
  assumes "grid_is R C S (Grid m)" "CellSize m = cs" "WallThickness m = wt"
  shows "\<exists>g'. open_left m (wrap64 (origin cs wt r)) (wrap64 (origin cs wt c)) = Done (m\<lparr>Grid := g'\<rparr>) \<and>
              grid_is R C (S \<union> wrap_px (gap cs wt ((r, c), 1))) g'"
  using paint_loop2 [OF assms(1), where ys = "range_int cs" and xs = "range_int wt" and fy =
      "\<lambda>y x m. iadd (wrap64 (origin cs wt r)) y" and fx = "\<lambda>y x m. iadd (isub (wrap64 (origin cs wt c)) (WallThickness m)) x"]
  by (simp add: open_left_def assms iadd_def isub_def set_range_int wrap_rect_yx)

lemma open_down_carves:
  assumes "grid_is R C S (Grid m)" "CellSize m = cs" "WallThickness m = wt"
  shows "\<exists>g'. open_down m (wrap64 (origin cs wt r)) (wrap64 (origin cs wt c)) = Done (m\<lparr>Grid := g'\<rparr>) \<and>
              grid_is R C (S \<union> wrap_px (gap cs wt ((r, c), 2))) g'"
  using paint_loop2 [OF assms(1), where ys = "range_int cs" and xs = "range_int wt" and fy =
      "\<lambda>x y m. iadd (iadd (wrap64 (origin cs wt r)) (CellSize m)) y" and fx = "\<lambda>x y m. iadd (wrap64 (origin cs wt c)) x"]
  by (simp add: open_down_def assms iadd_def set_range_int wrap_rect_xy)

lemma open_right_carves:
  assumes "grid_is R C S (Grid m)" "CellSize m = cs" "WallThickness m = wt"
  shows "\<exists>g'. open_right m (wrap64 (origin cs wt r)) (wrap64 (origin cs wt c)) = Done (m\<lparr>Grid := g'\<rparr>) \<and>
              grid_is R C (S \<union> wrap_px (gap cs wt ((r, c), 3))) g'"
  using paint_loop2 [OF assms(1), where ys = "range_int cs" and xs = "range_int wt" and fy =
      "\<lambda>y x m. iadd (wrap64 (origin cs wt r)) y" and fx = "\<lambda>y x m. iadd (iadd (wrap64 (origin cs wt c)) (CellSize m)) x"]
  by (simp add: open_right_def assms iadd_def set_range_int wrap_rect_yx)

subsection \<open>The visited matrix\<close>

lemma well_formed_rows:
  assumes "well_formed m"
  shows "length (Visited m) = nat (Rows m)"
    and "i < nat (Rows m) \<Longrightarrow> length (Visited m ! i) = nat (Cols m)"
proof -
  have eq: "map length (Visited m) = replicate (nat (Rows m)) (nat (Cols m))"
    using assms by (simp add: well_formed_def)
  from arg_cong [OF eq, of length] show len: "length (Visited m) = nat (Rows m)" by simp
  assume i: "i < nat (Rows m)"
  then have "length (Visited m ! i) = map length (Visited m) ! i" using len by simp
  also have "\<dots> = nat (Cols m)" using i by (simp add: eq)
  finally show "length (Visited m ! i) = nat (Cols m)" .
qed

lemma load2_well_formed:
  assumes "well_formed m" "(a, b) \<in> cells m"
  shows "load2 (Visited m) a b = Done (Visited m ! nat a ! nat b)"
proof -
  have a: "0 \<le> a" "a < Rows m" "0 \<le> b" "b < Cols m" using assms(2) by (auto simp: cells_def)
  then have "nat a < nat (Rows m)" by simp
  from well_formed_rows(2) [OF assms(1) this] well_formed_rows(1) [OF assms(1)] a
  show ?thesis by (simp add: load2_def)
qed

lemma visited_cells_iff:
  assumes "well_formed m"
  shows "(a, b) \<in> visited_cells m \<longleftrightarrow> (a, b) \<in> cells m \<and> Visited m ! nat a ! nat b"
  using load2_well_formed [OF assms] by (auto simp: visited_cells_def)

lemma mark_visited:
  assumes wf: "well_formed m" and rc: "(r, c) \<in> cells m"
  shows "\<exists>vis. store2 (Visited m) r c True = Done vis \<and> well_formed (m\<lparr>Visited := vis\<rparr>) \<and>
           visited_cells (m\<lparr>Visited := vis\<rparr>) = insert (r, c) (visited_cells m)"
proof -
  let ?vis = "(Visited m)[nat r := (Visited m ! nat r)[nat c := True]]"
  have r: "0 \<le> r" "r < Rows m" "0 \<le> c" "c < Cols m" using rc by (auto simp: cells_def)
  then have nr: "nat r < nat (Rows m)" by simp
  note len = well_formed_rows(1) [OF wf] and row = well_formed_rows(2) [OF wf]
  have run: "store2 (Visited m) r c True = Done ?vis"
    using r len row [OF nr] by (simp add: store2_def)
  have lens: "map length ?vis = map length (Visited m)"
    by (rule store2_lengths [OF run])
  have wf': "well_formed (m\<lparr>Visited := ?vis\<rparr>)"
    using wf lens by (simp add: well_formed_def)
  have cells': "cells (m\<lparr>Visited := ?vis\<rparr>) = cells m" by (simp add: cells_def)
  have "visited_cells (m\<lparr>Visited := ?vis\<rparr>) = insert (r, c) (visited_cells m)"
  proof (intro set_eqI)
    fix p :: cell
    obtain a b where p: "p = (a, b)" by (cases p)
    show "p \<in> visited_cells (m\<lparr>Visited := ?vis\<rparr>) \<longleftrightarrow> p \<in> insert (r, c) (visited_cells m)"
    proof (cases "(a, b) \<in> cells m")
      case False
      then show ?thesis using rc p by (auto simp: visited_cells_def cells')
    next
      case True
      then have ab: "0 \<le> a" "a < Rows m" "0 \<le> b" "b < Cols m" by (auto simp: cells_def)
      then have na: "nat a < length (Visited m)" "nat b < length (Visited m ! nat a)"
        using len row [of "nat a"] by auto
      have nrc: "nat r < length (Visited m)" "nat c < length (Visited m ! nat r)"
        using len row [OF nr] r by auto
      have "?vis ! nat a ! nat b = ((a, b) = (r, c) \<or> Visited m ! nat a ! nat b)"
        using na nrc ab r by (auto simp: nth_list_update split: if_splits)
      then show ?thesis
        using True p visited_cells_iff [OF wf, of a b] visited_cells_iff [OF wf', of a b] cells'
        by auto
    qed
  qed
  then show ?thesis using run wf' by blast
qed

subsection \<open>Extending the tree of openings\<close>

lemma neighbour_opposite:
  "d \<in> {0, 1, 2, 3} \<Longrightarrow> neighbour (neighbour u d) (opposite d) = u"
  by (cases u) (auto simp: opposite_def)

lemma edge_rel_mono: "E \<subseteq> E' \<Longrightarrow> edge_rel E \<subseteq> edge_rel E'"
  by (auto simp: edge_rel_def)

lemma tree_extend:
  assumes t: "tree V E" and u: "u \<in> V" and d: "d \<in> {0, 1, 2, 3}" and v: "neighbour u d \<notin> V"
  shows "tree (insert (neighbour u d) V) (insert (u, d) E)"
proof -
  let ?v = "neighbour u d"
  from t have root: "(0, 0) \<in> V"
    and ok: "\<And>e. e \<in> E \<Longrightarrow> fst e \<in> V \<and> snd e \<in> {0, 1, 2, 3} \<and> target e \<in> V"
    and inj: "inj_on target E" and img: "target ` E = V - {(0, 0)}"
    and asym: "\<And>e. e \<in> E \<Longrightarrow> (target e, opposite (snd e)) \<notin> E"
    and reach: "\<And>w. w \<in> V \<Longrightarrow> ((0, 0), w) \<in> (edge_rel E)\<^sup>*"
    by (auto simp: tree_def)
  have tgt: "target (u, d) = ?v" by (simp add: target_def)
  have 1: "(0, 0) \<in> insert ?v V" using root by simp
  have 2: "\<forall>e\<in>insert (u, d) E. fst e \<in> insert ?v V \<and> snd e \<in> {0, 1, 2, 3} \<and> target e \<in> insert ?v V"
    using ok u d tgt by auto
  have notin: "?v \<notin> target ` E" using img v by auto
  have "(u, d) \<notin> E" using notin tgt by force
  then have 3: "inj_on target (insert (u, d) E)"
    using inj notin tgt by (simp add: inj_on_insert)
  have 4: "target ` insert (u, d) E = insert ?v V - {(0, 0)}"
    using img tgt v root by auto
  have 5: "\<forall>e\<in>insert (u, d) E. (target e, opposite (snd e)) \<notin> insert (u, d) E"
  proof
    fix e assume e: "e \<in> insert (u, d) E"
    show "(target e, opposite (snd e)) \<notin> insert (u, d) E"
    proof (cases "e = (u, d)")
      case True
      have "(?v, opposite d) \<notin> E" using ok [of "(?v, opposite d)"] v by auto
      moreover have "(?v, opposite d) \<noteq> (u, d)" using u v by auto
      ultimately show ?thesis using True tgt by simp
    next
      case False
      then have eE: "e \<in> E" using e by simp
      have "(target e, opposite (snd e)) \<noteq> (u, d)"
      proof
        assume eq: "(target e, opposite (snd e)) = (u, d)"
        then have "neighbour u d = neighbour (neighbour (fst e) (snd e)) (opposite (snd e))"
          by (auto simp: target_def)
        also have "\<dots> = fst e" using ok [OF eE] by (intro neighbour_opposite) simp
        finally show False using ok [OF eE] v by simp
      qed
      then show ?thesis using asym [OF eE] by simp
    qed
  qed
  have sub: "edge_rel E \<subseteq> edge_rel (insert (u, d) E)" by (rule edge_rel_mono) auto
  have uv: "(u, ?v) \<in> edge_rel (insert (u, d) E)"
    unfolding edge_rel_def using tgt by force
  have 6: "\<forall>w\<in>insert ?v V. ((0, 0), w) \<in> (edge_rel (insert (u, d) E))\<^sup>*"
  proof
    fix w assume w: "w \<in> insert ?v V"
    show "((0, 0), w) \<in> (edge_rel (insert (u, d) E))\<^sup>*"
    proof (cases "w = ?v")
      case True
      have "((0, 0), u) \<in> (edge_rel (insert (u, d) E))\<^sup>*"
        using reach [OF u] rtrancl_mono [OF sub] by blast
      then show ?thesis using uv True by (auto intro: rtrancl_into_rtrancl)
    next
      case False
      then have "w \<in> V" using w by simp
      then show ?thesis using reach rtrancl_mono [OF sub] by blast
    qed
  qed
  show ?thesis unfolding tree_def using 1 2 3 4 5 6 by blast
qed

subsection \<open>The invariant of dfs\<close>

lemma frame_cells: "frame m m' \<Longrightarrow> cells m' = cells m"
  by (simp add: frame_def cells_def)

lemma cells_Grid [simp]: "cells (m\<lparr>Grid := g\<rparr>) = cells m"
  by (simp add: cells_def)

lemma cells_Rnd [simp]: "cells (m\<lparr>Rnd := x\<rparr>) = cells m"
  by (simp add: cells_def)

lemma visited_cells_Grid [simp]: "visited_cells (m\<lparr>Grid := g\<rparr>) = visited_cells m"
  by (simp add: visited_cells_def)

lemma visited_cells_Rnd [simp]: "visited_cells (m\<lparr>Rnd := x\<rparr>) = visited_cells m"
  by (simp add: visited_cells_def)

lemma well_formed_Grid [simp]: "well_formed (m\<lparr>Grid := g\<rparr>) = well_formed m"
  by (simp add: well_formed_def)

lemma well_formed_Rnd [simp]: "well_formed (m\<lparr>Rnd := Some x\<rparr>) = well_formed (m\<lparr>Rnd := Some y\<rparr>)"
  by (simp add: well_formed_def)

lemma well_formed_Rnd_Some: "well_formed m \<Longrightarrow> well_formed (m\<lparr>Rnd := Some x\<rparr>)"
  by (simp add: well_formed_def)

lemma finite_cells: "finite (cells m)"
proof -
  have "cells m \<subseteq> {0..<Rows m} \<times> {0..<Cols m}" by (auto simp: cells_def)
  then show ?thesis by (rule finite_subset) simp
qed

lemma visited_subset_cells: "visited_cells m \<subseteq> cells m"
  by (auto simp: visited_cells_def)

lemma card_unvisited_less:
  assumes "cells m' = cells m" "insert rc (visited_cells m) \<subseteq> visited_cells m'"
    "rc \<in> cells m" "rc \<notin> visited_cells m"
  shows "card (cells m' - visited_cells m') < card (cells m - visited_cells m)"
proof (rule psubset_card_mono)
  show "finite (cells m - visited_cells m)" using finite_cells by blast
  show "cells m' - visited_cells m' \<subset> cells m - visited_cells m" using assms by auto
qed

lemma carved_insert_cell:
  "carved cs wt (insert v V) E = carved cs wt V E \<union> wrap_px (block cs wt v)"
  by (auto simp: carved_def wrap_px_def)

lemma carved_insert_edge:
  "carved cs wt V (insert e E) = carved cs wt V E \<union> wrap_px (gap cs wt e)"
  by (auto simp: carved_def wrap_px_def)

lemma grid_is_lengths: "grid_is R C S g \<Longrightarrow> map length g = replicate R C"
  by (auto simp: grid_is_def intro!: nth_equalityI)

lemma closed_mono:
  "closed m v D \<Longrightarrow> cells m' = cells m \<Longrightarrow> visited_cells m \<subseteq> visited_cells m' \<Longrightarrow> closed m' v D"
  by (auto simp: closed_def)

lemma closed_insert:
  "closed m v (insert d D) \<longleftrightarrow>
     (neighbour v d \<in> cells m \<longrightarrow> neighbour v d \<in> visited_cells m) \<and> closed m v D"
  by (auto simp: closed_def)

lemma visit_progress:
  assumes rec: "\<And>m r c E. ready R C n m E (r, c) \<Longrightarrow>
       \<exists>m' E'. rec m r c = Done m' \<and> progress R C m E (r, c) {0, 1, 2, 3} m' E'"
    and m0: "ready R C (Suc n) m0 E0 rc"
    and P: "progress R C m0 E0 rc D m E"
    and d: "d \<in> {0, 1, 2, 3}"
    and ins: "inside \<longleftrightarrow> neighbour rc d \<in> cells m0"
    and nb: "(nr, nc) = neighbour rc d"
    and wall: "\<And>S. grid_is R C S (Grid m) \<Longrightarrow>
       \<exists>g'. open_wall m = Done (m\<lparr>Grid := g'\<rparr>) \<and>
            grid_is R C (S \<union> wrap_px (gap (CellSize m0) (WallThickness m0) (rc, d))) g'"
  shows "\<exists>m' E'. visit rec inside nr nc open_wall m = Done m' \<and>
           progress R C m0 E0 rc (insert d D) m' E'"
proof -
  let ?W = "visited_cells m0" and ?V = "visited_cells m"
  let ?cs = "CellSize m0" and ?wt = "WallThickness m0"
  let ?child = "neighbour rc d"
  from P have wf: "well_formed m" and fr: "frame m0 m" and V0: "insert rc ?W \<subseteq> ?V"
    and E0: "E0 \<subseteq> E" and tr: "tree ?V E"
    and gr: "grid_is R C (carved ?cs ?wt ?V E) (Grid m)"
    and cl: "\<And>v. v \<in> ?V - insert rc ?W \<Longrightarrow> closed m v {0, 1, 2, 3}"
    and clD: "closed m rc D"
    by (auto simp: progress_def)
  have cells: "cells m = cells m0" using fr by (rule frame_cells)
  show ?thesis
  proof (cases "?child \<in> cells m0 \<and> ?child \<notin> ?V")
    case False
    have run: "visit rec inside nr nc open_wall m = Done m"
    proof (cases inside)
      case False
      then show ?thesis by (simp add: visit_def)
    next
      case True
      then have c: "(nr, nc) \<in> cells m" using ins nb cells by simp
      then have "(nr, nc) \<in> ?V" using False ins True nb by simp
      then have "load2 (Visited m) nr nc = Done True" by (simp add: visited_cells_def)
      then show ?thesis using True by (simp add: visit_def)
    qed
    have "closed m rc (insert d D)" using clD False cells by (auto simp: closed_insert)
    then have "progress R C m0 E0 rc (insert d D) m E"
      using P by (simp add: progress_def)
    then show ?thesis using run by blast
  next
    case True
    then have inside: inside and c: "(nr, nc) \<in> cells m" and nv: "(nr, nc) \<notin> ?V"
      using ins nb cells by auto
    have "load2 (Visited m) nr nc = Done (Visited m ! nat nr ! nat nc)"
      by (rule load2_well_formed [OF wf c])
    moreover have "\<not> Visited m ! nat nr ! nat nc"
      using nv c visited_cells_iff [OF wf, of nr nc] by simp
    ultimately have ld: "load2 (Visited m) nr nc = Done False" by simp
    from wall [OF gr] obtain g' where
      g': "open_wall m = Done (m\<lparr>Grid := g'\<rparr>)"
          "grid_is R C (carved ?cs ?wt ?V E \<union> wrap_px (gap ?cs ?wt (rc, d))) g'" by blast
    let ?m1 = "m\<lparr>Grid := g'\<rparr>" and ?E1 = "insert (rc, d) E"
    have cfg: "CellSize ?m1 = ?cs" "WallThickness ?m1 = ?wt" using fr by (simp_all add: frame_def)
    have rcV: "rc \<in> ?V" using V0 by auto
    have rc0: "rc \<in> cells m0" "rc \<notin> ?W" "card (cells m0 - ?W) \<le> Suc n"
      using m0 by (auto simp: ready_def)
    have "card (cells m - ?V) < card (cells m0 - ?W)"
      by (rule card_unvisited_less [OF cells V0 rc0(1,2)])
    then have card: "card (cells ?m1 - visited_cells ?m1) \<le> n" using rc0(3) by simp
    have tr1: "tree (insert ?child ?V) ?E1"
      by (rule tree_extend [OF tr rcV d]) (use True in simp)
    have "ready R C n ?m1 ?E1 (nr, nc)"
      unfolding ready_def using wf c nv card tr1 g'(2) nb cfg
      by (simp add: carved_insert_edge)
    from rec [OF this] obtain m' E' where
      run: "rec ?m1 nr nc = Done m'" and P1: "progress R C ?m1 ?E1 (nr, nc) {0, 1, 2, 3} m' E'"
      by blast
    let ?V' = "visited_cells m'"
    from P1 have wf': "well_formed m'" and fr1: "frame ?m1 m'" and V1: "insert ?child ?V \<subseteq> ?V'"
      and E1: "?E1 \<subseteq> E'" and tr': "tree ?V' E'"
      and gr': "grid_is R C (carved ?cs ?wt ?V' E') (Grid m')"
      and cl1: "\<And>v. v \<in> ?V' - insert ?child ?V \<Longrightarrow> closed m' v {0, 1, 2, 3}"
      and clc: "closed m' ?child {0, 1, 2, 3}"
      using nb cfg by (auto simp: progress_def)
    have "map length g' = map length (Grid m)"
      using grid_is_lengths [OF gr] grid_is_lengths [OF g'(2)] by simp
    then have "frame m ?m1" by (simp add: frame_def)
    then have fr': "frame m0 m'" using fr fr1 frame_trans by blast
    have cells': "cells m' = cells m" using frame_cells [OF fr'] cells by simp
    have sub: "?V \<subseteq> ?V'" using V1 by auto
    have cl': "\<forall>v\<in>?V' - insert rc ?W. closed m' v {0, 1, 2, 3}"
    proof
      fix v assume v: "v \<in> ?V' - insert rc ?W"
      show "closed m' v {0, 1, 2, 3}"
      proof (cases "v \<in> ?V")
        case True
        then have "closed m v {0, 1, 2, 3}" using cl v by simp
        then show ?thesis using cells' sub by (rule closed_mono)
      next
        case False
        then show ?thesis using cl1 [of v] clc v by (cases "v = ?child") auto
      qed
    qed
    have "closed m' rc D" using clD cells' sub by (rule closed_mono)
    moreover have "?child \<in> ?V'" using V1 by simp
    ultimately have clD': "closed m' rc (insert d D)" by (simp add: closed_insert)
    have "progress R C m0 E0 rc (insert d D) m' E'"
      unfolding progress_def using wf' fr' V0 sub E0 E1 tr' gr' cl' clD' by auto
    moreover have "visit rec inside nr nc open_wall m = Done m'"
      using inside ld g'(1) run by (simp add: visit_def)
    ultimately show ?thesis by blast
  qed
qed

lemma switch_progress:
  assumes rec: "\<And>m r c E. ready R C n m E (r, c) \<Longrightarrow>
       \<exists>m' E'. rec m r c = Done m' \<and> progress R C m E (r, c) {0, 1, 2, 3} m' E'"
    and m0: "ready R C (Suc n) m0 E0 (r, c)"
    and P: "progress R C m0 E0 (r, c) D m E"
    and d: "d \<in> {0, 1, 2, 3}"
  shows "\<exists>m' E'. switch_dir rec r c (wrap64 (origin (CellSize m0) (WallThickness m0) r))
              (wrap64 (origin (CellSize m0) (WallThickness m0) c)) d m = Done m' \<and>
           progress R C m0 E0 (r, c) (insert d D) m' E'"
proof -
  let ?cs = "CellSize m0" and ?wt = "WallThickness m0"
  let ?sy = "wrap64 (origin ?cs ?wt r)" and ?sx = "wrap64 (origin ?cs ?wt c)"
  from m0 have rc: "0 \<le> r" "r < Rows m0" "0 \<le> c" "c < Cols m0"
    and big: "Rows m0 < 2 ^ 63" "Cols m0 < 2 ^ 63"
    by (auto simp: ready_def cells_def well_formed_def)
  from P have fr: "frame m0 m" by (simp add: progress_def)
  then have cfg: "CellSize m = ?cs" "WallThickness m = ?wt" "Rows m = Rows m0" "Cols m = Cols m0"
    by (simp_all add: frame_def)
  have arith: "isub r 1 = r - 1" "isub c 1 = c - 1" "iadd r 1 = r + 1" "iadd c 1 = c + 1"
    using rc big by (simp_all add: isub_def iadd_def wrap64_id)
  consider "d = 0" | "d = 1" | "d = 2" | "d = 3" using d by auto
  then show ?thesis
  proof cases
    case 1
    have sw: "switch_dir rec r c ?sy ?sx d m
        = visit rec (isub r 1 \<ge> 0) (isub r 1) c (\<lambda>m. open_up m ?sy ?sx) m"
      using 1 by (simp add: switch_dir_def)
    have ins: "(isub r 1 \<ge> 0) \<longleftrightarrow> neighbour (r, c) d \<in> cells m0"
      using 1 rc arith by (auto simp: cells_def)
    have nb: "(isub r 1, c) = neighbour (r, c) d" using 1 arith by simp
    have wall: "\<And>S. grid_is R C S (Grid m) \<Longrightarrow>
       \<exists>g'. open_up m ?sy ?sx = Done (m\<lparr>Grid := g'\<rparr>) \<and>
            grid_is R C (S \<union> wrap_px (gap ?cs ?wt ((r, c), d))) g'"
      unfolding 1 by (rule open_up_carves [OF _ cfg(1,2)])
    show ?thesis unfolding sw
      by (rule visit_progress [where open_wall = "\<lambda>m. open_up m ?sy ?sx" and m = m and rec = rec,
            OF rec m0 P d ins nb wall])
  next
    case 2
    have sw: "switch_dir rec r c ?sy ?sx d m
        = visit rec (isub c 1 \<ge> 0) r (isub c 1) (\<lambda>m. open_left m ?sy ?sx) m"
      using 2 by (simp add: switch_dir_def)
    have ins: "(isub c 1 \<ge> 0) \<longleftrightarrow> neighbour (r, c) d \<in> cells m0"
      using 2 rc arith by (auto simp: cells_def)
    have nb: "(r, isub c 1) = neighbour (r, c) d" using 2 arith by simp
    have wall: "\<And>S. grid_is R C S (Grid m) \<Longrightarrow>
       \<exists>g'. open_left m ?sy ?sx = Done (m\<lparr>Grid := g'\<rparr>) \<and>
            grid_is R C (S \<union> wrap_px (gap ?cs ?wt ((r, c), d))) g'"
      unfolding 2 by (rule open_left_carves [OF _ cfg(1,2)])
    show ?thesis unfolding sw
      by (rule visit_progress [where open_wall = "\<lambda>m. open_left m ?sy ?sx" and m = m and rec = rec,
            OF rec m0 P d ins nb wall])
  next
    case 3
    have sw: "switch_dir rec r c ?sy ?sx d m
        = visit rec (iadd r 1 < Rows m) (iadd r 1) c (\<lambda>m. open_down m ?sy ?sx) m"
      using 3 by (simp add: switch_dir_def)
    have ins: "(iadd r 1 < Rows m) \<longleftrightarrow> neighbour (r, c) d \<in> cells m0"
      using 3 rc arith cfg by (auto simp: cells_def)
    have nb: "(iadd r 1, c) = neighbour (r, c) d" using 3 arith by simp
    have wall: "\<And>S. grid_is R C S (Grid m) \<Longrightarrow>
       \<exists>g'. open_down m ?sy ?sx = Done (m\<lparr>Grid := g'\<rparr>) \<and>
            grid_is R C (S \<union> wrap_px (gap ?cs ?wt ((r, c), d))) g'"
      unfolding 3 by (rule open_down_carves [OF _ cfg(1,2)])
    show ?thesis unfolding sw
      by (rule visit_progress [where open_wall = "\<lambda>m. open_down m ?sy ?sx" and m = m and rec = rec,
            OF rec m0 P d ins nb wall])
  next
    case 4
    have sw: "switch_dir rec r c ?sy ?sx d m
        = visit rec (iadd c 1 < Cols m) r (iadd c 1) (\<lambda>m. open_right m ?sy ?sx) m"
      using 4 by (simp add: switch_dir_def)
    have ins: "(iadd c 1 < Cols m) \<longleftrightarrow> neighbour (r, c) d \<in> cells m0"
      using 4 rc arith cfg by (auto simp: cells_def)
    have nb: "(r, iadd c 1) = neighbour (r, c) d" using 4 arith by simp
    have wall: "\<And>S. grid_is R C S (Grid m) \<Longrightarrow>
       \<exists>g'. open_right m ?sy ?sx = Done (m\<lparr>Grid := g'\<rparr>) \<and>
            grid_is R C (S \<union> wrap_px (gap ?cs ?wt ((r, c), d))) g'"
      unfolding 4 by (rule open_right_carves [OF _ cfg(1,2)])
    show ?thesis unfolding sw
      by (rule visit_progress [where open_wall = "\<lambda>m. open_right m ?sy ?sx" and m = m and rec = rec,
            OF rec m0 P d ins nb wall])
  qed
qed

lemma loop_progress:
  assumes rec: "\<And>m r c E. ready R C n m E (r, c) \<Longrightarrow>
       \<exists>m' E'. rec m r c = Done m' \<and> progress R C m E (r, c) {0, 1, 2, 3} m' E'"
    and m0: "ready R C (Suc n) m0 E0 (r, c)"
    and P: "progress R C m0 E0 (r, c) D m E"
    and ds: "set ds \<subseteq> {0, 1, 2, 3}"
  shows "\<exists>m' E'. for_each ds (switch_dir rec r c (wrap64 (origin (CellSize m0) (WallThickness m0) r))
              (wrap64 (origin (CellSize m0) (WallThickness m0) c))) m = Done m' \<and>
           progress R C m0 E0 (r, c) (D \<union> set ds) m' E'"
  using P ds
proof (induction ds arbitrary: m E D)
  case Nil
  then show ?case by auto
next
  case (Cons d ds)
  have d: "d \<in> {0, 1, 2, 3}" using Cons.prems(2) by simp
  from switch_progress [OF rec m0 Cons.prems(1) d] obtain m1 E1 where
    1: "switch_dir rec r c (wrap64 (origin (CellSize m0) (WallThickness m0) r))
          (wrap64 (origin (CellSize m0) (WallThickness m0) c)) d m = Done m1"
       "progress R C m0 E0 (r, c) (insert d D) m1 E1" by blast
  have "set ds \<subseteq> {0, 1, 2, 3}" using Cons.prems(2) by simp
  from Cons.IH [OF 1(2) this] obtain m' E' where
    2: "for_each ds (switch_dir rec r c (wrap64 (origin (CellSize m0) (WallThickness m0) r))
          (wrap64 (origin (CellSize m0) (WallThickness m0) c))) m1 = Done m'"
       "progress R C m0 E0 (r, c) (insert d D \<union> set ds) m' E'" by blast
  have "insert d D \<union> set ds = D \<union> set (d # ds)" by auto
  then show ?case using 1(1) 2 by auto
qed

lemma dfs_progress:
  assumes contract: "perm_contract src"
  shows "ready R C n m E (r, c) \<Longrightarrow>
     \<exists>m' E'. dfs src n m r c = Done m' \<and> progress R C m E (r, c) {0, 1, 2, 3} m' E'"
proof (induction n arbitrary: m r c E)
  case 0
  then have "(r, c) \<in> cells m - visited_cells m" "card (cells m - visited_cells m) = 0"
    by (auto simp: ready_def)
  moreover have "finite (cells m - visited_cells m)" using finite_cells by blast
  ultimately show ?case by auto
next
  case (Suc n)
  let ?cs = "CellSize m" and ?wt = "WallThickness m"
  let ?sy = "wrap64 (origin ?cs ?wt r)" and ?sx = "wrap64 (origin ?cs ?wt c)"
  let ?W = "visited_cells m"
  from Suc.prems have wf: "well_formed m" and rc: "(r, c) \<in> cells m" "(r, c) \<notin> ?W"
    and tr: "tree (insert (r, c) ?W) E"
    and gr: "grid_is R C (carved ?cs ?wt ?W E) (Grid m)"
    by (auto simp: ready_def)
  from mark_visited [OF wf rc(1)] obtain vis where
    vis: "store2 (Visited m) r c True = Done vis"
      "well_formed (m\<lparr>Visited := vis\<rparr>)"
      "visited_cells (m\<lparr>Visited := vis\<rparr>) = insert (r, c) ?W" by blast
  let ?m1 = "m\<lparr>Visited := vis\<rparr>"
  have "grid_is R C (carved ?cs ?wt ?W E) (Grid ?m1)" using gr by simp
  from fill_cell_carves [OF this, of ?cs ?wt r c] obtain g2 where
    g2: "fill_cell ?m1 ?sy ?sx = Done (?m1\<lparr>Grid := g2\<rparr>)"
        "grid_is R C (carved ?cs ?wt ?W E \<union> wrap_px (block ?cs ?wt (r, c))) g2" by auto
  let ?m2 = "?m1\<lparr>Grid := g2\<rparr>"
  from wf obtain g where g: "Rnd m = Some g" by (auto simp: well_formed_def)
  let ?dirs = "fst (Perm src g 4)" and ?g' = "snd (Perm src g 4)"
  let ?m3 = "?m2\<lparr>Rnd := Some ?g'\<rparr>"
  have dirs: "set ?dirs = {0, 1, 2, 3}" using contract by (simp add: perm_contract_def)
  have unfold: "dfs src (Suc n) m r c
      = for_each ?dirs (switch_dir (dfs src n) r c ?sy ?sx) ?m3"
    using vis(1) g2(1) g by (simp add: origin_code Let_def case_prod_beta)
  have wf3: "well_formed ?m3" using vis(2) by (simp add: well_formed_def)
  have "map length vis = map length (Visited m)" by (rule store2_lengths [OF vis(1)])
  moreover have "map length g2 = map length (Grid m)"
    using grid_is_lengths [OF gr] grid_is_lengths [OF g2(2)] by simp
  ultimately have fr3: "frame m ?m3" by (simp add: frame_def)
  have V3: "visited_cells ?m3 = insert (r, c) ?W" using vis(3) by simp
  have "progress R C m E (r, c) {} ?m3 E"
    unfolding progress_def using wf3 fr3 V3 tr g2(2)
    by (simp add: carved_insert_cell closed_def)
  from loop_progress [OF Suc.IH Suc.prems this, of ?dirs] dirs obtain m' E' where
    "for_each ?dirs (switch_dir (dfs src n) r c ?sy ?sx) ?m3 = Done m'"
    "progress R C m E (r, c) {0, 1, 2, 3} m' E'" by auto
  then show ?case using unfold by auto
qed

subsection \<open>A run of Generate\<close>

lemma visited_cells_reset [simp]:
  "visited_cells (m\<lparr>Visited := map (\<lambda>row. map (\<lambda>_. False) row) V\<rparr>) = {}"
  by (auto simp: visited_cells_def load2_def split: if_splits)

lemma card_cells: "card (cells m) = nat (Rows m) * nat (Cols m)"
proof -
  have "cells m = {0..<Rows m} \<times> {0..<Cols m}" by (auto simp: cells_def)
  then show ?thesis by (simp add: card_cartesian_product)
qed

lemma tree_root: "tree {(0, 0)} {}"
  by (simp add: tree_def)

lemma grid_is_reset:
  assumes "map length g = replicate R C"
  shows "grid_is R C {} (map (\<lambda>row. map (\<lambda>_. 1) row) g)"
proof -
  have len: "length g = R" using arg_cong [OF assms, of length] by simp
  have row: "\<And>i. i < R \<Longrightarrow> length (g ! i) = C"
  proof -
    fix i assume i: "i < R"
    then have "length (g ! i) = map length g ! i" using len by simp
    then show "length (g ! i) = C" using i by (simp add: assms)
  qed
  show ?thesis using len row by (simp add: grid_is_def)
qed

lemma closed_covers:
  assumes root: "(0, 0) \<in> V"
    and cl: "\<And>v d. v \<in> V \<Longrightarrow> d \<in> {0, 1, 2, 3} \<Longrightarrow> neighbour v d \<in> cells m \<Longrightarrow> neighbour v d \<in> V"
  shows "cells m \<subseteq> V"
proof
  fix p assume p: "p \<in> cells m"
  obtain r c where rc: "p = (r, c)" by (cases p)
  then have b: "0 \<le> r" "r < Rows m" "0 \<le> c" "c < Cols m" using p by (auto simp: cells_def)
  have col: "int k < Rows m \<Longrightarrow> (int k, 0) \<in> V" for k
  proof (induction k)
    case 0
    then show ?case using root by simp
  next
    case (Suc k)
    then have "(int k, 0) \<in> V" by simp
    moreover have "neighbour (int k, 0) 2 = (int (Suc k), 0)" by simp
    moreover have "(int (Suc k), 0) \<in> cells m" using Suc.prems b by (simp add: cells_def)
    ultimately show ?case using cl [of "(int k, 0)" 2] by (simp add: add.commute)
  qed
  have row: "int j < Cols m \<Longrightarrow> (r, int j) \<in> V" for j
  proof (induction j)
    case 0
    then show ?case using col [of "nat r"] b by simp
  next
    case (Suc j)
    then have "(r, int j) \<in> V" by simp
    moreover have "neighbour (r, int j) 3 = (r, int (Suc j))" by simp
    moreover have "(r, int (Suc j)) \<in> cells m" using Suc.prems b by (simp add: cells_def)
    ultimately show ?case using cl [of "(r, int j)" 3] by (simp add: add.commute)
  qed
  show "p \<in> V" using row [of "nat c"] b rc by simp
qed

lemma Generate_total:
  assumes contract: "perm_contract src"
    and grid: "map length (Grid m) = replicate R C"
    and vis: "map length (Visited m) = replicate (nat (Rows m)) (nat (Cols m))"
    and dims: "0 < Rows m" "0 < Cols m" "Rows m < 2 ^ 63" "Cols m < 2 ^ 63"
    and fuel: "nat (Rows m * Cols m) \<le> n"
  shows "\<exists>m' E. Generate src n m seed1 seed2 = Done m' \<and> frame m m' \<and>
           visited_cells m' = cells m \<and> tree (cells m) E \<and>
           grid_is R C (carved (CellSize m) (WallThickness m) (cells m) E) (Grid m')"
proof -
  let ?m3 = "m\<lparr>Rnd := Some (NewPCG src seed1 seed2),
         Grid := map (\<lambda>row. map (\<lambda>_. 1) row) (Grid m),
         Visited := map (\<lambda>row. map (\<lambda>_. False) row) (Visited m)\<rparr>"
  have gen: "Generate src n m seed1 seed2 = dfs src n ?m3 0 0"
    by (simp add: Generate_def Let_def)
  have fr: "frame m ?m3" by (simp add: frame_def comp_def)
  have wf: "well_formed ?m3" using vis dims by (simp add: well_formed_def comp_def)
  have cells: "cells ?m3 = cells m" by (simp add: cells_def)
  have V: "visited_cells ?m3 = {}" by simp
  have root: "(0, 0) \<in> cells ?m3" using dims by (simp add: cells_def)
  have card: "card (cells ?m3 - visited_cells ?m3) \<le> n"
    using fuel dims card_cells [of ?m3] by (simp add: V nat_mult_distrib)
  have gr: "grid_is R C (carved (CellSize ?m3) (WallThickness ?m3) (visited_cells ?m3) {}) (Grid ?m3)"
    using grid_is_reset [OF grid] by (simp add: carved_def wrap_px_def)
  have "ready R C n ?m3 {} (0, 0)"
    unfolding ready_def using wf root card gr tree_root by (simp add: V)
  from dfs_progress [OF contract this] obtain m' E where
    run: "dfs src n ?m3 0 0 = Done m'" and P: "progress R C ?m3 {} (0, 0) {0, 1, 2, 3} m' E"
    by blast
  from P have fr': "frame ?m3 m'" and tr: "tree (visited_cells m') E"
    and gr': "grid_is R C (carved (CellSize m) (WallThickness m) (visited_cells m') E) (Grid m')"
    and r0: "(0, 0) \<in> visited_cells m'"
    and cl: "\<forall>v\<in>visited_cells m' - {(0, 0)}. closed m' v {0, 1, 2, 3}"
    and cl0: "closed m' (0, 0) {0, 1, 2, 3}"
    by (auto simp: progress_def V)
  have cells': "cells m' = cells m" using frame_cells [OF fr'] cells by simp
  have "cells m' \<subseteq> visited_cells m'"
  proof (rule closed_covers [OF r0])
    fix v d assume "v \<in> visited_cells m'" "d \<in> {0, 1, 2, 3 :: int}" "neighbour v d \<in> cells m'"
    then show "neighbour v d \<in> visited_cells m'"
      using cl cl0 by (cases "v = (0, 0)") (auto simp: closed_def)
  qed
  then have all: "visited_cells m' = cells m"
    using visited_subset_cells [of m'] cells' by auto
  have "frame m m'" using fr fr' by (rule frame_trans)
  then show ?thesis using run gen all tr gr' by auto
qed

lemma NewMaze_Done:
  assumes "NewMaze w h cs wt = Done m"
  shows "m = \<lparr>Grid = replicate (nat (wrap64 (pixel_dim h cs wt))) (replicate (nat (wrap64 (pixel_dim w cs wt))) 0),
              Visited = replicate (nat h) (replicate (nat w) False),
              Rnd = None, CellSize = cs, WallThickness = wt, Cols = w, Rows = h\<rparr>"
    and "0 \<le> wrap64 (pixel_dim h cs wt)" and "0 \<le> h"
    and "0 < wrap64 (pixel_dim h cs wt) \<Longrightarrow> 0 \<le> wrap64 (pixel_dim w cs wt)"
    and "0 < h \<Longrightarrow> 0 \<le> w"
  using assms unfolding NewMaze_eq pixel_dim_def Let_def
  by (auto split: if_splits)

lemma Generate_maze:
  assumes contract: "perm_contract src"
    and new: "NewMaze w h cs wt = Done m0"
    and dims: "0 < w" "w < 2 ^ 63" "0 < h" "h < 2 ^ 63"
    and re: "regenerated src m0 m"
    and fuel: "nat (h * w) \<le> n"
  shows "\<exists>m' E. Generate src n m seed1 seed2 = Done m' \<and> frame m0 m' \<and>
           visited_cells m' = cells m0 \<and> tree (cells m0) E \<and>
           grid_is (nat (wrap64 (pixel_dim h cs wt))) (nat (wrap64 (pixel_dim w cs wt)))
             (carved cs wt (cells m0) E) (Grid m')"
proof -
  note m0 = NewMaze_Done(1) [OF new]
  have f: "Rows m0 = h" "Cols m0 = w" "CellSize m0 = cs" "WallThickness m0 = wt"
    "map length (Grid m0) = replicate (nat (wrap64 (pixel_dim h cs wt))) (nat (wrap64 (pixel_dim w cs wt)))"
    "map length (Visited m0) = replicate (nat (Rows m0)) (nat (Cols m0))"
    by (subst m0, simp)+
  have "Generate src n m seed1 seed2 = Generate src n m0 seed1 seed2"
    by (rule Generate_cong [OF regenerated_frame [OF re]])
  moreover from Generate_total [OF contract f(5,6), of n seed1 seed2] dims fuel f(1-4)
  have "\<exists>m' E. Generate src n m0 seed1 seed2 = Done m' \<and> frame m0 m' \<and>
           visited_cells m' = cells m0 \<and> tree (cells m0) E \<and>
           grid_is (nat (wrap64 (pixel_dim h cs wt))) (nat (wrap64 (pixel_dim w cs wt)))
             (carved cs wt (cells m0) E) (Grid m')"
    by simp
  ultimately show ?thesis by simp
qed

subsection \<open>Running with a larger bound on the depth\<close>

lemma for_each_mono:
  assumes "\<And>x s s'. f x s = Done s' \<Longrightarrow> f' x s = Done s'" and "for_each xs f s = Done s'"
  shows "for_each xs f' s = Done s'"
  using assms(2)
proof (induction xs arbitrary: s)
  case Nil
  then show ?case by simp
next
  case (Cons x xs)
  then obtain s1 where s1: "f x s = Done s1" "for_each xs f s1 = Done s'"
    by (auto simp: bind_Done_iff)
  have "f' x s = Done s1" by (rule assms(1) [OF s1(1)])
  moreover have "for_each xs f' s1 = Done s'" by (rule Cons.IH [OF s1(2)])
  ultimately show ?case by simp
qed

lemma visit_mono:
  assumes "\<And>m r c m'. rec m r c = Done m' \<Longrightarrow> rec' m r c = Done m'"
    and "visit rec inside nr nc open_wall m = Done m'"
  shows "visit rec' inside nr nc open_wall m = Done m'"
proof (cases "inside")
  case False
  then show ?thesis using assms(2) by (simp add: visit_def)
next
  case True
  then obtain v where v: "load2 (Visited m) nr nc = Done v"
    and rest: "(if \<not> v then bind (open_wall m) (\<lambda>m. rec m nr nc) else Done m) = Done m'"
    using assms(2) by (auto simp: visit_def bind_Done_iff)
  show ?thesis
  proof (cases v)
    case True
    then show ?thesis using rest v \<open>inside\<close> by (simp add: visit_def)
  next
    case False
    then obtain m1 where "open_wall m = Done m1" "rec m1 nr nc = Done m'"
      using rest by (auto simp: bind_Done_iff)
    then show ?thesis using assms(1) v False \<open>inside\<close> by (simp add: visit_def)
  qed
qed

lemma switch_dir_mono:
  assumes "\<And>m r c m'. rec m r c = Done m' \<Longrightarrow> rec' m r c = Done m'"
    and "switch_dir rec r c sy sx d m = Done m'"
  shows "switch_dir rec' r c sy sx d m = Done m'"
  using assms(2)
proof (cases rule: switch_dir_cases)
  case up
  then show ?thesis using visit_mono [OF assms(1) up(2)] by (simp add: switch_dir_def)
next
  case left
  then show ?thesis using visit_mono [OF assms(1) left(2)] by (simp add: switch_dir_def)
next
  case down
  then show ?thesis using visit_mono [OF assms(1) down(2)] by (simp add: switch_dir_def)
next
  case right
  then show ?thesis using visit_mono [OF assms(1) right(2)] by (simp add: switch_dir_def)
next
  case none
  then show ?thesis by (simp add: switch_dir_def)
qed

lemma dfs_fuel_Suc: "dfs src n m r c = Done m' \<Longrightarrow> dfs src (Suc n) m r c = Done m'"
proof (induction n arbitrary: m r c m')
  case 0
  then show ?case by simp
next
  case (Suc n)
  let ?sy = "iadd (WallThickness m) (imul r (iadd (CellSize m) (WallThickness m)))"
  let ?sx = "iadd (WallThickness m) (imul c (iadd (CellSize m) (WallThickness m)))"
  from Suc.prems obtain vis m2 g where
    vis: "store2 (Visited m) r c True = Done vis"
    and fill: "fill_cell (m\<lparr>Visited := vis\<rparr>) ?sy ?sx = Done m2"
    and rnd: "Rnd m2 = Some g"
    and loop: "for_each (fst (Perm src g 4)) (switch_dir (dfs src n) r c ?sy ?sx)
                 (m2\<lparr>Rnd := Some (snd (Perm src g 4))\<rparr>) = Done m'"
    by (rule dfs_Suc_DoneE)
  have "for_each (fst (Perm src g 4)) (switch_dir (dfs src (Suc n)) r c ?sy ?sx)
                 (m2\<lparr>Rnd := Some (snd (Perm src g 4))\<rparr>) = Done m'"
    by (rule for_each_mono [OF _ loop]) (erule switch_dir_mono [OF Suc.IH, rotated])
  then show ?case
    using vis fill rnd by (subst dfs.simps(2)) (simp add: Let_def case_prod_beta del: dfs.simps)
qed

lemma dfs_fuel_add: "dfs src n m r c = Done m' \<Longrightarrow> dfs src (n + j) m r c = Done m'"
proof (induction j)
  case 0
  then show ?case by simp
next
  case (Suc j)
  then show ?case using dfs_fuel_Suc [of src "n + j" m r c m'] by (simp del: dfs.simps)
qed

lemma dfs_fuel_mono: "dfs src n m r c = Done m' \<Longrightarrow> n \<le> k \<Longrightarrow> dfs src k m r c = Done m'"
  using dfs_fuel_add [of src n m r c m' "k - n"] by (simp del: dfs.simps)

lemma Generate_fuel_mono:
  "Generate src n m seed1 seed2 = Done m' \<Longrightarrow> n \<le> k \<Longrightarrow> Generate src k m seed1 seed2 = Done m'"
  unfolding Generate_def Let_def by (rule dfs_fuel_mono)

subsection \<open>Geometry without overflow\<close>

lemma carved_region: "carved cs wt V E = wrap_px (region cs wt V E)"
  by (simp add: carved_def region_def)

lemma origin_mono: "0 \<le> cs + wt \<Longrightarrow> r \<le> r' \<Longrightarrow> origin cs wt r \<le> origin cs wt r'"
  by (simp add: origin_def mult_right_mono)

lemma origin_succ: "origin cs wt (r + 1) = origin cs wt r + cs + wt"
  by (simp add: origin_def algebra_simps)

lemma origin_pred: "origin cs wt (r - 1) = origin cs wt r - cs - wt"
  by (simp add: origin_def algebra_simps)

lemma origin_last: "origin cs wt (n - 1) + cs = pixel_dim n cs wt - wt"
  by (simp add: origin_def pixel_dim_def algebra_simps)

lemma origin_bounds:
  assumes "0 < cs" "0 \<le> wt" "0 \<le> r" "r < n"
  shows "wt \<le> origin cs wt r" and "origin cs wt r + cs \<le> pixel_dim n cs wt - wt"
proof -
  have "origin cs wt 0 \<le> origin cs wt r" using assms by (intro origin_mono) auto
  then show "wt \<le> origin cs wt r" by (simp add: origin_def)
  have "origin cs wt r \<le> origin cs wt (n - 1)" using assms by (intro origin_mono) auto
  then show "origin cs wt r + cs \<le> pixel_dim n cs wt - wt"
    using origin_last [of cs wt n] by simp
qed

lemma block_inner:
  assumes "0 < cs" "0 \<le> wt" "0 \<le> r" "r < h" "0 \<le> c" "c < w"
  shows "block cs wt (r, c) \<subseteq> inner w h cs wt"
  using origin_bounds [OF assms(1,2,3,4)] origin_bounds [OF assms(1,2,5,6)]
  by (auto simp: rect_def inner_def)

lemma gap_inner:
  assumes "0 < cs" "0 \<le> wt" "0 \<le> r" "r < h" "0 \<le> c" "c < w"
    and "d \<in> {0, 1, 2, 3}" and "neighbour (r, c) d \<in> {(r, c). 0 \<le> r \<and> r < h \<and> 0 \<le> c \<and> c < w}"
  shows "gap cs wt ((r, c), d) \<subseteq> inner w h cs wt"
proof -
  note R = origin_bounds [OF assms(1,2,3,4)] and C = origin_bounds [OF assms(1,2,5,6)]
  consider "d = 0" | "d = 1" | "d = 2" | "d = 3" using assms(7) by auto
  then show ?thesis
  proof cases
    case 1
    then have "0 \<le> r - 1" "r - 1 < h" using assms(8) by auto
    from origin_bounds [OF assms(1,2) this] R C show ?thesis
      using 1 by (auto simp: rect_def inner_def origin_pred)
  next
    case 2
    then have "0 \<le> c - 1" "c - 1 < w" using assms(8) by auto
    from origin_bounds [OF assms(1,2) this] R C show ?thesis
      using 2 by (auto simp: rect_def inner_def origin_pred)
  next
    case 3
    then have "0 \<le> r + 1" "r + 1 < h" using assms(8) by auto
    from origin_bounds [OF assms(1,2) this] R C show ?thesis
      using 3 by (auto simp: rect_def inner_def origin_succ)
  next
    case 4
    then have "0 \<le> c + 1" "c + 1 < w" using assms(8) by auto
    from origin_bounds [OF assms(1,2) this] R C show ?thesis
      using 4 by (auto simp: rect_def inner_def origin_succ)
  qed
qed

lemma region_inner:
  assumes "0 < cs" "0 \<le> wt"
    and V: "V \<subseteq> {(r, c). 0 \<le> r \<and> r < h \<and> 0 \<le> c \<and> c < w}"
    and E: "\<And>e. e \<in> E \<Longrightarrow> fst e \<in> V \<and> snd e \<in> {0, 1, 2, 3} \<and> target e \<in> V"
  shows "region cs wt V E \<subseteq> inner w h cs wt"
proof
  fix p assume "p \<in> region cs wt V E"
  then consider u where "u \<in> V" "p \<in> block cs wt u" | e where "e \<in> E" "p \<in> gap cs wt e"
    by (auto simp: region_def)
  then show "p \<in> inner w h cs wt"
  proof cases
    case 1
    obtain r c where u: "u = (r, c)" by (cases u)
    then have "0 \<le> r" "r < h" "0 \<le> c" "c < w" using 1(1) V by auto
    from block_inner [OF assms(1,2) this] 1(2) u show ?thesis by auto
  next
    case 2
    obtain r c d where e: "e = ((r, c), d)" by (cases e) auto
    from E [OF 2(1)] e V have b: "0 \<le> r" "r < h" "0 \<le> c" "c < w" and d: "d \<in> {0, 1, 2, 3}"
      and t: "neighbour (r, c) d \<in> {(r, c). 0 \<le> r \<and> r < h \<and> 0 \<le> c \<and> c < w}"
      by (auto simp: target_def)
    from gap_inner [OF assms(1,2) b d t] 2(2) e show ?thesis by auto
  qed
qed

lemma wrap_px_inner:
  assumes "S \<subseteq> inner w h cs wt" "0 \<le> wt" "fits w h cs wt"
  shows "wrap_px S = S"
proof -
  have "(\<lambda>(y, x). (wrap64 y, wrap64 x)) p = p" if "p \<in> S" for p
  proof -
    obtain y x where p: "p = (y, x)" by (cases p)
    then have "0 \<le> y" "y < 2 ^ 63" "0 \<le> x" "x < 2 ^ 63"
      using that assms by (auto simp: inner_def fits_def)
    then show ?thesis using p by (simp add: wrap64_id)
  qed
  then show ?thesis unfolding wrap_px_def by force
qed

lemma pixel_dim_pos:
  assumes "0 < n" "0 < cs" "0 \<le> wt"
  shows "n \<le> pixel_dim n cs wt" and "0 < pixel_dim n cs wt" and "2 * wt < pixel_dim n cs wt"
proof -
  have a: "n \<le> n * cs" using mult_left_mono [of 1 cs n] assms by simp
  have b: "2 * wt \<le> (n + 1) * wt" using assms by (intro mult_right_mono) auto
  show "n \<le> pixel_dim n cs wt" using a b assms unfolding pixel_dim_def by linarith
  then show "0 < pixel_dim n cs wt" using assms by simp
  show "2 * wt < pixel_dim n cs wt" using a b assms unfolding pixel_dim_def by linarith
qed

lemma Generate_geometry:
  assumes contract: "perm_contract src"
    and new: "NewMaze w h cs wt = Done m0"
    and dims: "0 < w" "0 < h" "0 < cs" "0 \<le> wt" and fits: "fits w h cs wt"
    and re: "regenerated src m0 m"
    and fuel: "nat (h * w) \<le> n"
  shows "\<exists>m' E. Generate src n m seed1 seed2 = Done m' \<and> frame m0 m' \<and> tree (cells m0) E \<and>
           region cs wt (cells m0) E \<subseteq> inner w h cs wt \<and>
           grid_is (nat (pixel_dim h cs wt)) (nat (pixel_dim w cs wt))
             (region cs wt (cells m0) E) (Grid m')"
proof -
  have big: "w < 2 ^ 63" "h < 2 ^ 63"
    using pixel_dim_pos(1) [OF dims(1,3,4)] pixel_dim_pos(1) [OF dims(2,3,4)] fits
    by (auto simp: fits_def)
  have id: "wrap64 (pixel_dim h cs wt) = pixel_dim h cs wt" "wrap64 (pixel_dim w cs wt) = pixel_dim w cs wt"
    using pixel_dim_pos(2) [OF dims(1,3,4)] pixel_dim_pos(2) [OF dims(2,3,4)] fits
    by (auto simp: fits_def wrap64_id)
  from Generate_maze [OF contract new dims(1) big(1) dims(2) big(2) re fuel, of seed1 seed2]
  obtain m' E where
    run: "Generate src n m seed1 seed2 = Done m'" and fr: "frame m0 m'"
    and tr: "tree (cells m0) E"
    and gr: "grid_is (nat (pixel_dim h cs wt)) (nat (pixel_dim w cs wt))
               (carved cs wt (cells m0) E) (Grid m')"
    unfolding id by blast
  have cells: "cells m0 = {(r, c). 0 \<le> r \<and> r < h \<and> 0 \<le> c \<and> c < w}"
    by (subst NewMaze_Done(1) [OF new]) (simp add: cells_def)
  have "region cs wt (cells m0) E \<subseteq> inner w h cs wt"
    by (rule region_inner [OF dims(3,4)]) (use tr cells in \<open>auto simp: tree_def\<close>)
  moreover from this have "carved cs wt (cells m0) E = region cs wt (cells m0) E"
    unfolding carved_region by (rule wrap_px_inner [OF _ dims(4) fits])
  ultimately show ?thesis using run fr tr gr by auto
qed

lemma NewMaze_dims:
  assumes new: "NewMaze w h cs wt = Done m0"
    and dims: "0 < w" "0 < h" "0 < cs" "0 \<le> wt" and fits: "fits w h cs wt"
    and fr: "frame m0 m"
  shows "Rows m = h" "Cols m = w" "CellSize m = cs" "WallThickness m = wt"
    and "map length (Grid m) = replicate (nat (pixel_dim h cs wt)) (nat (pixel_dim w cs wt))"
proof -
  have id: "wrap64 (pixel_dim h cs wt) = pixel_dim h cs wt" "wrap64 (pixel_dim w cs wt) = pixel_dim w cs wt"
    using pixel_dim_pos(2) [OF dims(1,3,4)] pixel_dim_pos(2) [OF dims(2,3,4)] fits
    by (auto simp: fits_def wrap64_id)
  have "Rows m0 = h" "Cols m0 = w" "CellSize m0 = cs" "WallThickness m0 = wt"
    "map length (Grid m0) = replicate (nat (pixel_dim h cs wt)) (nat (pixel_dim w cs wt))"
    by (subst NewMaze_Done(1) [OF new], simp add: id)+
  then show "Rows m = h" "Cols m = w" "CellSize m = cs" "WallThickness m = wt"
    "map length (Grid m) = replicate (nat (pixel_dim h cs wt)) (nat (pixel_dim w cs wt))"
    using fr by (simp_all add: frame_def)
qed

lemma in_bounds_inner:
  assumes lens: "map length g = replicate (nat (pixel_dim h cs wt)) (nat (pixel_dim w cs wt))"
    and "0 \<le> wt" and "(y, x) \<in> inner w h cs wt"
  shows "in_bounds g y x"
proof -
  have len: "length g = nat (pixel_dim h cs wt)" using arg_cong [OF lens, of length] by simp
  have y: "0 \<le> y" "y < pixel_dim h cs wt" "0 \<le> x" "x < pixel_dim w cs wt"
    using assms(2,3) by (auto simp: inner_def)
  then have "0 < length g" using len by simp
  then have "length (g ! 0) = map length g ! 0" by simp
  also have "\<dots> = nat (pixel_dim w cs wt)" using y unfolding lens by simp
  finally show ?thesis using y len by (simp add: in_bounds_def)
qed

subsection \<open>Paths of open pixels\<close>

lemma open_in_region:
  assumes gr: "grid_is (nat (pixel_dim h cs wt)) (nat (pixel_dim w cs wt)) S g"
    and sub: "S \<subseteq> inner w h cs wt" and wt: "0 \<le> wt" and p: "p \<in> S"
  shows "is_open g p"
proof -
  obtain y x where yx: "p = (y, x)" by (cases p)
  then have b: "0 \<le> y" "y < pixel_dim h cs wt" "0 \<le> x" "x < pixel_dim w cs wt"
    using p sub wt by (auto simp: inner_def)
  then have n: "nat y < nat (pixel_dim h cs wt)" "nat x < nat (pixel_dim w cs wt)" by auto
  have "(int (nat y), int (nat x)) \<in> S" using p yx b by simp
  then show ?thesis using gr n b yx by (auto simp: grid_is_def is_open_def)
qed

lemma walk_sym: "sym (walk g)"
  by (auto simp: sym_def walk_def)

lemma walk_back: "(p, q) \<in> (walk g)\<^sup>* \<Longrightarrow> (q, p) \<in> (walk g)\<^sup>*"
  by (rule symD [OF sym_rtrancl [OF walk_sym]])

lemma rect_from_corner:
  assumes op: "\<And>p. p \<in> rect ya xa hh ww \<Longrightarrow> is_open g p"
    and p: "(y, x) \<in> rect ya xa hh ww"
  shows "((ya, xa), (y, x)) \<in> (walk g)\<^sup>*"
proof -
  have pos: "0 < hh" "0 < ww" using p by (auto simp: rect_def)
  have col: "int a < hh \<Longrightarrow> ((ya, xa), (ya + int a, xa)) \<in> (walk g)\<^sup>*" for a
  proof (induction a)
    case 0
    then show ?case by simp
  next
    case (Suc a)
    then have "((ya, xa), (ya + int a, xa)) \<in> (walk g)\<^sup>*" by simp
    moreover have "((ya + int a, xa), (ya + int (Suc a), xa)) \<in> walk g"
      using Suc.prems pos by (auto simp: walk_def intro!: op simp: rect_def)
    ultimately show ?case by (rule rtrancl_into_rtrancl)
  qed
  have row: "int b < ww \<Longrightarrow> ((ya, xa), (y, xa + int b)) \<in> (walk g)\<^sup>*" for b
  proof (induction b)
    case 0
    then show ?case using col [of "nat (y - ya)"] p by (simp add: rect_def)
  next
    case (Suc b)
    then have "((ya, xa), (y, xa + int b)) \<in> (walk g)\<^sup>*" by simp
    moreover have "((y, xa + int b), (y, xa + int (Suc b))) \<in> walk g"
      using Suc.prems p by (auto simp: walk_def intro!: op simp: rect_def)
    ultimately show ?case by (rule rtrancl_into_rtrancl)
  qed
  show ?thesis using row [of "nat (x - xa)"] p by (simp add: rect_def)
qed

lemma rect_connected:
  assumes "\<And>p. p \<in> rect ya xa hh ww \<Longrightarrow> is_open g p"
    and "p \<in> rect ya xa hh ww" and "q \<in> rect ya xa hh ww"
  shows "(p, q) \<in> (walk g)\<^sup>*"
proof -
  have "((ya, xa), p) \<in> (walk g)\<^sup>*" "((ya, xa), q) \<in> (walk g)\<^sup>*"
    using rect_from_corner [OF assms(1)] assms(2,3) by (cases p, cases q, auto)+
  then show ?thesis using walk_back by (meson rtrancl_trans)
qed

lemma corner_in_block: "0 < cs \<Longrightarrow> corner cs wt u \<in> block cs wt u"
  by (cases u) (simp add: corner_def rect_def)

lemma edge_connected:
  assumes cs: "0 < cs" and wt: "0 \<le> wt" and d: "d \<in> {0, 1, 2, 3}"
    and op: "\<And>p. p \<in> block cs wt u \<union> gap cs wt (u, d) \<union> block cs wt (neighbour u d) \<Longrightarrow> is_open g p"
  shows "(corner cs wt u, corner cs wt (neighbour u d)) \<in> (walk g)\<^sup>*"
proof -
  obtain r c where u: "u = (r, c)" by (cases u)
  consider "d = 0" | "d = 1" | "d = 2" | "d = 3" using d by auto
  then show ?thesis
  proof cases
    case 1
    show ?thesis
    proof (rule rect_connected [where ya = "origin cs wt (r - 1)" and xa = "origin cs wt c"
          and hh = "2 * cs + wt" and ww = cs])
      fix p assume "p \<in> rect (origin cs wt (r - 1)) (origin cs wt c) (2 * cs + wt) cs"
      then have "p \<in> block cs wt u \<union> gap cs wt (u, d) \<union> block cs wt (neighbour u d)"
        using 1 u cs wt by (auto simp: rect_def origin_pred)
      then show "is_open g p" by (rule op)
    qed (use 1 u cs wt in \<open>auto simp: corner_def rect_def origin_pred\<close>)
  next
    case 2
    show ?thesis
    proof (rule rect_connected [where ya = "origin cs wt r" and xa = "origin cs wt (c - 1)"
          and hh = cs and ww = "2 * cs + wt"])
      fix p assume "p \<in> rect (origin cs wt r) (origin cs wt (c - 1)) cs (2 * cs + wt)"
      then have "p \<in> block cs wt u \<union> gap cs wt (u, d) \<union> block cs wt (neighbour u d)"
        using 2 u cs wt by (auto simp: rect_def origin_pred)
      then show "is_open g p" by (rule op)
    qed (use 2 u cs wt in \<open>auto simp: corner_def rect_def origin_pred\<close>)
  next
    case 3
    show ?thesis
    proof (rule rect_connected [where ya = "origin cs wt r" and xa = "origin cs wt c"
          and hh = "2 * cs + wt" and ww = cs])
      fix p assume "p \<in> rect (origin cs wt r) (origin cs wt c) (2 * cs + wt) cs"
      then have "p \<in> block cs wt u \<union> gap cs wt (u, d) \<union> block cs wt (neighbour u d)"
        using 3 u cs wt by (auto simp: rect_def origin_succ)
      then show "is_open g p" by (rule op)
    qed (use 3 u cs wt in \<open>auto simp: corner_def rect_def origin_succ\<close>)
  next
    case 4
    show ?thesis
    proof (rule rect_connected [where ya = "origin cs wt r" and xa = "origin cs wt c"
          and hh = cs and ww = "2 * cs + wt"])
      fix p assume "p \<in> rect (origin cs wt r) (origin cs wt c) cs (2 * cs + wt)"
      then have "p \<in> block cs wt u \<union> gap cs wt (u, d) \<union> block cs wt (neighbour u d)"
        using 4 u cs wt by (auto simp: rect_def origin_succ)
      then show "is_open g p" by (rule op)
    qed (use 4 u cs wt in \<open>auto simp: corner_def rect_def origin_succ\<close>)
  qed
qed

lemma tree_connected:
  assumes cs: "0 < cs" and wt: "0 \<le> wt" and tr: "tree V E"
    and op: "\<And>p. p \<in> region cs wt V E \<Longrightarrow> is_open g p"
    and v: "v \<in> V"
  shows "(corner cs wt (0, 0), corner cs wt v) \<in> (walk g)\<^sup>*"
proof -
  from tr v have "((0, 0), v) \<in> (edge_rel E)\<^sup>*" by (auto simp: tree_def)
  then show ?thesis
  proof (induction rule: rtrancl_induct)
    case base
    show ?case by simp
  next
    case (step a b)
    then obtain e where e: "e \<in> E" "a = fst e" "b = target e" by (auto simp: edge_rel_def)
    with tr have ok: "fst e \<in> V" "snd e \<in> {0, 1, 2, 3}" "target e \<in> V" by (auto simp: tree_def)
    have "block cs wt a \<union> gap cs wt (a, snd e) \<union> block cs wt (neighbour a (snd e))
        \<subseteq> region cs wt V E"
      using e ok unfolding region_def target_def by (cases e) auto
    then have o: "\<And>p. p \<in> block cs wt a \<union> gap cs wt (a, snd e) \<union> block cs wt (neighbour a (snd e))
        \<Longrightarrow> is_open g p" using op by blast
    have "(corner cs wt a, corner cs wt (neighbour a (snd e))) \<in> (walk g)\<^sup>*"
      by (rule edge_connected [where u = a and d = "snd e" and g = g, OF cs wt ok(2)]) (rule o)
    then have "(corner cs wt a, corner cs wt b) \<in> (walk g)\<^sup>*" using e by (simp add: target_def)
    with step.IH show ?case by (rule rtrancl_trans)
  qed
qed

subsection \<open>Counting the open passages\<close>

lemma gap_norm: "snd e \<in> {0, 1, 2, 3} \<Longrightarrow> gap cs wt (norm_edge e) = gap cs wt e"
  by (cases e, cases "fst e")
     (auto simp: norm_edge_def target_def opposite_def origin_pred)

lemma band_unique:
  assumes P: "0 < cs + wt"
    and y: "origin cs wt r \<le> y" "y < origin cs wt r + (cs + wt)"
    and y': "origin cs wt r' \<le> y" "y < origin cs wt r' + (cs + wt)"
  shows "r = r'"
proof (rule ccontr)
  assume "r \<noteq> r'"
  then consider "r + 1 \<le> r'" | "r' + 1 \<le> r" by linarith
  then show False
  proof cases
    case 1
    then have "origin cs wt (r + 1) \<le> origin cs wt r'" using P by (intro origin_mono) auto
    then show False using y y' by (simp add: origin_succ)
  next
    case 2
    then have "origin cs wt (r' + 1) \<le> origin cs wt r" using P by (intro origin_mono) auto
    then show False using y y' by (simp add: origin_succ)
  qed
qed

lemma gap_block_disjoint:
  assumes "0 < cs" "0 \<le> wt" "d = 2 \<or> d = 3" "p \<in> gap cs wt (u, d)" "p \<in> block cs wt v"
  shows False
proof -
  obtain r c where u: "u = (r, c)" by (cases u)
  obtain r' c' where v: "v = (r', c')" by (cases v)
  obtain y x where p: "p = (y, x)" by (cases p)
  have P: "0 < cs + wt" using assms by simp
  from assms(3) show False
  proof
    assume d: "d = 2"
    then have y: "origin cs wt r + cs \<le> y" "y < origin cs wt r + cs + wt"
      and y': "origin cs wt r' \<le> y" "y < origin cs wt r' + cs"
      using assms(4,5) u v p by (auto simp: rect_def)
    have "r = r'" by (rule band_unique [OF P, of r y r']) (use y y' assms in auto)
    then show False using y y' by simp
  next
    assume d: "d = 3"
    then have x: "origin cs wt c + cs \<le> x" "x < origin cs wt c + cs + wt"
      and x': "origin cs wt c' \<le> x" "x < origin cs wt c' + cs"
      using assms(4,5) u v p by (auto simp: rect_def)
    have "c = c'" by (rule band_unique [OF P, of c x c']) (use x x' assms in auto)
    then show False using x x' by simp
  qed
qed

lemma gap_gap_unique:
  assumes "0 < cs" "0 \<le> wt" "d = 2 \<or> d = 3" "d' = 2 \<or> d' = 3"
    "p \<in> gap cs wt (u, d)" "p \<in> gap cs wt (u', d')"
  shows "(u, d) = (u', d')"
proof -
  obtain r c where u: "u = (r, c)" by (cases u)
  obtain r' c' where v: "u' = (r', c')" by (cases u')
  obtain y x where p: "p = (y, x)" by (cases p)
  have P: "0 < cs + wt" using assms by simp
  have y: "origin cs wt r \<le> y" "y < origin cs wt r + (cs + wt)"
    and x: "origin cs wt c \<le> x" "x < origin cs wt c + (cs + wt)"
    using assms(1,2,3,5) u p by (auto simp: rect_def)
  have y': "origin cs wt r' \<le> y" "y < origin cs wt r' + (cs + wt)"
    and x': "origin cs wt c' \<le> x" "x < origin cs wt c' + (cs + wt)"
    using assms(1,2,4,6) v p by (auto simp: rect_def)
  have r: "r = r'" by (rule band_unique [OF P y y'])
  have c: "c = c'" by (rule band_unique [OF P x x'])
  have "d = d'" using assms(3,4,5,6) u v p r c by (auto simp: rect_def)
  then show ?thesis using u v r c by simp
qed

lemma norm_edge_inj:
  assumes tr: "tree V E"
  shows "inj_on norm_edge E"
proof (rule inj_onI)
  fix e1 e2 assume e: "e1 \<in> E" "e2 \<in> E" and eq: "norm_edge e1 = norm_edge e2"
  from tr have inj: "inj_on target E"
    and asym: "\<And>e. e \<in> E \<Longrightarrow> (target e, opposite (snd e)) \<notin> E"
    and ok: "\<And>e. e \<in> E \<Longrightarrow> snd e \<in> {0, 1, 2, 3}"
    by (auto simp: tree_def)
  consider "snd e1 = 2 \<or> snd e1 = 3" "snd e2 = 2 \<or> snd e2 = 3"
    | "\<not> (snd e1 = 2 \<or> snd e1 = 3)" "\<not> (snd e2 = 2 \<or> snd e2 = 3)"
    | "snd e1 = 2 \<or> snd e1 = 3" "\<not> (snd e2 = 2 \<or> snd e2 = 3)"
    | "\<not> (snd e1 = 2 \<or> snd e1 = 3)" "snd e2 = 2 \<or> snd e2 = 3" by blast
  then show "e1 = e2"
  proof cases
    case 1
    then show ?thesis using eq by (simp add: norm_edge_def)
  next
    case 2
    then have "target e1 = target e2" using eq by (simp add: norm_edge_def)
    then show ?thesis using inj e by (auto dest: inj_onD)
  next
    case 3
    then have "e1 = (target e2, opposite (snd e2))" using eq by (simp add: norm_edge_def)
    then show ?thesis using asym [OF e(2)] e(1) by simp
  next
    case 4
    then have "e2 = (target e1, opposite (snd e1))" using eq by (simp add: norm_edge_def)
    then show ?thesis using asym [OF e(1)] e(2) by simp
  qed
qed

lemma norm_edge_passage:
  assumes "fst e \<in> V" "snd e \<in> {0, 1, 2, 3}" "target e \<in> V"
  shows "fst (norm_edge e) \<in> V \<and> (snd (norm_edge e) = 2 \<or> snd (norm_edge e) = 3) \<and>
         target (norm_edge e) \<in> V"
proof (cases "snd e = 2 \<or> snd e = 3")
  case True
  then show ?thesis using assms by (simp add: norm_edge_def)
next
  case False
  then have d: "snd e = 0 \<or> snd e = 1" using assms(2) by auto
  have "neighbour (neighbour (fst e) (snd e)) (opposite (snd e)) = fst e"
    by (rule neighbour_opposite [OF assms(2)])
  then show ?thesis using False d assms by (auto simp: norm_edge_def target_def opposite_def)
qed

lemma card_tree_edges:
  assumes "tree V E" "finite V"
  shows "card E = card V - 1"
proof -
  from assms(1) have inj: "inj_on target E" and img: "target ` E = V - {(0, 0)}"
    and root: "(0, 0) \<in> V" by (auto simp: tree_def)
  have "card E = card (target ` E)" using inj by (simp add: card_image)
  also have "\<dots> = card V - 1" using img root assms(2) by simp
  finally show ?thesis .
qed

lemma wall_outside_region:
  assumes gr: "grid_is (nat (pixel_dim h cs wt)) (nat (pixel_dim w cs wt)) S g"
    and wt: "0 \<le> wt" and p: "p \<in> inner w h cs wt" "p \<notin> S"
  shows "is_wall g p"
proof -
  obtain y x where yx: "p = (y, x)" by (cases p)
  then have b: "0 \<le> y" "y < pixel_dim h cs wt" "0 \<le> x" "x < pixel_dim w cs wt"
    using p wt by (auto simp: inner_def)
  then have n: "nat y < nat (pixel_dim h cs wt)" "nat x < nat (pixel_dim w cs wt)" by auto
  have "(int (nat y), int (nat x)) \<notin> S" using p yx b by simp
  then show ?thesis using gr n b yx by (auto simp: grid_is_def is_wall_def)
qed

lemma open_passages_tree:
  assumes "perm_contract src" and "NewMaze w h cs wt = Done m0"
    and "0 < w" "0 < h" "0 < cs" "0 \<le> wt" and "fits w h cs wt"
    and "regenerated src m0 m" and "nat (h * w) \<le> n" and wt: "0 < wt"
  shows "\<exists>m'. Generate src n m seed1 seed2 = Done m' \<and> frame m0 m' \<and>
           card {e \<in> passages m'. passage_open m' e} = nat (h * w) - 1 \<and>
           (\<forall>e\<in>passages m'. passage_open m' e \<or> passage_walled m' e)"
proof -
  from Generate_geometry [OF assms(1-9), of seed1 seed2] obtain m' E where
    run: "Generate src n m seed1 seed2 = Done m'" and fr: "frame m0 m'"
    and tr: "tree (cells m0) E"
    and sub: "region cs wt (cells m0) E \<subseteq> inner w h cs wt"
    and gr: "grid_is (nat (pixel_dim h cs wt)) (nat (pixel_dim w cs wt))
               (region cs wt (cells m0) E) (Grid m')" by blast
  note cfg = NewMaze_dims [OF assms(2-7) fr]
  let ?V = "cells m0" and ?N = "norm_edge ` E"
  have cells: "cells m' = ?V" by (rule frame_cells [OF fr])
  have V: "?V = {(r, c). 0 \<le> r \<and> r < h \<and> 0 \<le> c \<and> c < w}"
    using cells cfg by (auto simp: cells_def)
  have ok: "\<And>e. e \<in> E \<Longrightarrow> fst e \<in> ?V \<and> snd e \<in> {0, 1, 2, 3} \<and> target e \<in> ?V"
    using tr by (auto simp: tree_def)
  have N_pass: "?N \<subseteq> passages m'"
  proof
    fix e assume "e \<in> ?N"
    then obtain e0 where e0: "e0 \<in> E" "e = norm_edge e0" by auto
    from norm_edge_passage [of e0 ?V] ok [OF e0(1)] e0(2)
    show "e \<in> passages m'" by (cases e) (auto simp: passages_def cells target_def)
  qed
  have N_open: "passage_open m' e" if "e \<in> ?N" for e
  proof -
    from that obtain e0 where e0: "e0 \<in> E" "e = norm_edge e0" by auto
    then have "gap cs wt e = gap cs wt e0" using ok [OF e0(1)] by (simp add: gap_norm)
    then have "gap cs wt e \<subseteq> region cs wt ?V E" using e0(1) by (auto simp: region_def)
    then show ?thesis
      unfolding passage_open_def cfg using open_in_region [OF gr sub assms(6)] by blast
  qed
  have rest: "passage_walled m' e \<and> \<not> passage_open m' e" if e: "e \<in> passages m'" "e \<notin> ?N" for e
  proof -
    obtain r c d where rcd: "e = ((r, c), d)" by (cases e) auto
    then have b: "0 \<le> r" "r < h" "0 \<le> c" "c < w" and d: "d = 2 \<or> d = 3"
      and nb: "neighbour (r, c) d \<in> {(r, c). 0 \<le> r \<and> r < h \<and> 0 \<le> c \<and> c < w}"
      using e(1) V cells by (auto simp: passages_def)
    have din: "d \<in> {0, 1, 2, 3}" using d by auto
    have inn: "gap cs wt e \<subseteq> inner w h cs wt"
      unfolding rcd by (rule gap_inner [OF assms(5,6) b din nb])
    have out: "p \<notin> region cs wt ?V E" if p: "p \<in> gap cs wt e" for p
    proof
      assume "p \<in> region cs wt ?V E"
      then consider v where "p \<in> block cs wt v" | e0 where "e0 \<in> E" "p \<in> gap cs wt e0"
        by (auto simp: region_def)
      then show False
      proof cases
        case 1
        show False by (rule gap_block_disjoint [OF assms(5,6) d p [unfolded rcd] 1])
      next
        case 2
        obtain u' d' where n: "norm_edge e0 = (u', d')" by (cases "norm_edge e0")
        have d': "d' = 2 \<or> d' = 3"
          using norm_edge_passage [of e0 ?V] ok [OF 2(1)] n by simp
        have "p \<in> gap cs wt (u', d')" using 2(2) ok [OF 2(1)] n gap_norm [of e0 cs wt] by simp
        from gap_gap_unique [OF assms(5,6) d d' p [unfolded rcd] this]
        have "e = norm_edge e0" using rcd n by simp
        then show False using e(2) 2(1) by blast
      qed
    qed
    have walled: "passage_walled m' e"
      unfolding passage_walled_def cfg
    proof
      fix p assume p: "p \<in> gap cs wt e"
      show "is_wall (Grid m') p"
        by (rule wall_outside_region [OF gr assms(6)]) (use p inn out in auto)
    qed
    have "(origin cs wt r + cs, origin cs wt c) \<in> gap cs wt e
        \<or> (origin cs wt r, origin cs wt c + cs) \<in> gap cs wt e"
      using d rcd assms(5) wt by (auto simp: rect_def)
    then obtain p where p: "p \<in> gap cs wt e" by blast
    then have "is_wall (Grid m') p" using walled by (simp add: passage_walled_def cfg)
    then have "\<not> is_open (Grid m') p" by (simp add: is_wall_def is_open_def)
    then have "\<not> passage_open m' e" using p by (auto simp: passage_open_def cfg)
    then show ?thesis using walled by simp
  qed
  have eq: "{e \<in> passages m'. passage_open m' e} = ?N"
    using N_pass N_open rest by blast
  have "card ?N = card E" by (rule card_image [OF norm_edge_inj [OF tr]])
  also have "\<dots> = card ?V - 1" by (rule card_tree_edges [OF tr finite_cells])
  also have "card ?V = nat (h * w)"
    using card_cells [of m0] cfg cells assms(3,4) card_cells [of m']
    by (simp add: nat_mult_distrib)
  finally have "card {e \<in> passages m'. passage_open m' e} = nat (h * w) - 1" using eq by simp
  moreover have "\<forall>e\<in>passages m'. passage_open m' e \<or> passage_walled m' e"
    using N_open rest by blast
  ultimately show ?thesis using run fr by blast
qed

subsection \<open>The maze of two cells\<close>

lemma grid_is_eq:
  assumes "grid_is R C S g"
  shows "g = map (\<lambda>i. map (\<lambda>j. if (int i, int j) \<in> S then 0 else 1) [0..<C]) [0..<R]"
proof (rule nth_equalityI)
  show "length g = length (map (\<lambda>i. map (\<lambda>j. if (int i, int j) \<in> S then 0 else 1) [0..<C]) [0..<R])"
    using assms by (simp add: grid_is_def)
next
  fix i assume "i < length g"
  then have i: "i < R" using assms by (simp add: grid_is_def)
  then have row: "length (g ! i) = C" "\<And>j. j < C \<Longrightarrow> g ! i ! j = (if (int i, int j) \<in> S then 0 else 1)"
    using assms by (simp_all add: grid_is_def)
  have "g ! i = map (\<lambda>j. if (int i, int j) \<in> S then 0 else 1) [0..<C]"
    by (rule nth_equalityI) (simp_all add: row)
  then show "g ! i = map (\<lambda>i. map (\<lambda>j. if (int i, int j) \<in> S then 0 else 1) [0..<C]) [0..<R] ! i"
    using i by simp
qed

lemma tree_two_cells:
  assumes "tree {(0, 0), (0, 1)} E"
  shows "E = {((0, 0), 3)}"
proof -
  have ok: "\<And>e. e \<in> E \<Longrightarrow> fst e \<in> {(0, 0), (0, 1)} \<and> snd e \<in> {0, 1, 2, 3} \<and> target e \<in> {(0, 0), (0, 1)}"
    and img: "target ` E = {(0, 0), (0, 1)} - {(0, 0)}"
    using assms by (auto simp: tree_def)
  have one: "e = ((0, 0), 3)" if "e \<in> E" for e
  proof -
    obtain u d where e: "e = (u, d)" by (cases e)
    have "target e \<in> target ` E" using that by simp
    then have "target e = (0, 1)" unfolding img by simp
    then show ?thesis using ok [OF that] e by (auto simp: target_def split: if_splits)
  qed
  have "(0, 1) \<in> target ` E" unfolding img by simp
  then obtain e where "e \<in> E" by auto
  then have "((0, 0), 3) \<in> E" using one [of e] by simp
  then show ?thesis using one by blast
qed

lemma region_two_cells:
  "region 4 1 {(0, 0), (0, 1)} {((0, 0), 3)} = {(y, x). 1 \<le> y \<and> y < 5 \<and> 1 \<le> x \<and> x < 10}"
  by (auto simp: region_def rect_def origin_def)

lemma two_cells_grid:
  "map (\<lambda>i. map (\<lambda>j. if (int i, int j) \<in> {(y, x). 1 \<le> y \<and> y < 5 \<and> 1 \<le> x \<and> x < 10} then 0 else (1 :: int))
     [0..<11]) [0..<6]
   = [[1,1,1,1,1,1,1,1,1,1,1], [1,0,0,0,0,0,0,0,0,0,1], [1,0,0,0,0,0,0,0,0,0,1],
      [1,0,0,0,0,0,0,0,0,0,1], [1,0,0,0,0,0,0,0,0,0,1], [1,1,1,1,1,1,1,1,1,1,1]]"
  by (simp add: upt_conv_Cons)

lemma open_iff_region:
  assumes gr: "grid_is (nat (pixel_dim h cs wt)) (nat (pixel_dim w cs wt)) S g"
    and sub: "S \<subseteq> inner w h cs wt" and wt: "0 \<le> wt"
  shows "{p. is_open g p} = S"
proof (intro set_eqI iffI)
  fix p assume "p \<in> {p. is_open g p}"
  then have o: "is_open g p" by simp
  obtain y x where yx: "p = (y, x)" by (cases p)
  have len: "length g = nat (pixel_dim h cs wt)" using gr by (simp add: grid_is_def)
  have "0 \<le> y" "y < int (length g)" using o yx by (simp_all add: is_open_def)
  then have y: "0 \<le> y" "nat y < nat (pixel_dim h cs wt)" using len by linarith+
  then have "length (g ! nat y) = nat (pixel_dim w cs wt)" using gr by (simp add: grid_is_def)
  moreover have "0 \<le> x" "x < int (length (g ! nat y))" using o yx by (simp_all add: is_open_def)
  ultimately have x: "0 \<le> x" "nat x < nat (pixel_dim w cs wt)" by linarith+
  have "g ! nat y ! nat x = 0" using o yx by (simp add: is_open_def)
  moreover have "g ! nat y ! nat x = (if (int (nat y), int (nat x)) \<in> S then 0 else 1)"
    using gr y x by (simp add: grid_is_def)
  ultimately have "(int (nat y), int (nat x)) \<in> S" by (simp split: if_splits)
  then show "p \<in> S" using y x yx by simp
next
  fix p assume "p \<in> S"
  then show "p \<in> {p. is_open g p}" using open_in_region [OF gr sub wt] by simp
qed

subsection \<open>What a run leaves in place\<close>

lemma in_place_refl: "in_place sm sm"
  by (simp add: in_place_def split: prod.splits)

lemma in_place_trans: "in_place a b \<Longrightarrow> in_place b c \<Longrightarrow> in_place a c"
proof -
  assume ab: "in_place a b" and bc: "in_place b c"
  obtain s m where a: "a = (s, m)" by (cases a)
  obtain s1 m1 where b: "b = (s1, m1)" by (cases b)
  obtain s2 m2 where c: "c = (s2, m2)" by (cases c)
  have li: "length (int_arrays s1) = length (int_arrays s)"
    and lb: "length (bool_arrays s1) = length (bool_arrays s)"
    using ab by (auto simp: in_place_def a b dest: map_eq_imp_length_eq)
  show ?thesis using ab bc li lb by (simp add: in_place_def a b c)
qed

lemma index_at_mem: "index_at mem sl i = Done x \<Longrightarrow> x \<in> set (array_at mem sl)"
  by (auto simp: index_at_def len_at_def split: if_splits)

lemma assign_at_frame:
  assumes "assign_at mem sl j v = Done mem'"
  shows "map length mem' = map length mem"
    and "\<And>a. sl \<noteq> Some a \<Longrightarrow> mem' ! a = mem ! a"
proof -
  obtain a0 where sl: "sl = Some a0" using assms by (cases sl) auto
  then have m': "mem' = mem[a0 := (mem ! a0)[nat j := v]]"
    using assms by (auto split: if_splits)
  show "map length mem' = map length mem"
    unfolding m'
    by (cases "a0 < length mem") (simp_all add: map_update list_update_same_conv list_update_beyond)
  show "mem' ! a = mem ! a" if "sl \<noteq> Some a" for a
    using that sl m' by simp
qed

lemma set_pixel_in_place: "set_pixel sm i j v = Done sm' \<Longrightarrow> in_place sm sm'"
proof -
  assume run: "set_pixel sm i j v = Done sm'"
  obtain s m where sm: "sm = (s, m)" by (cases sm)
  from run obtain row ia where row: "index_at (slice_arrays s) (mGrid m) i = Done row"
    and ia: "assign_at (int_arrays s) row j v = Done ia"
    and sm': "sm' = (s\<lparr>int_arrays := ia\<rparr>, m)"
    by (auto simp: set_pixel_def sm bind_Done_iff)
  have "row \<in> set (array_at (slice_arrays s) (mGrid m))" by (rule index_at_mem [OF row])
  then have "ia ! a = int_arrays s ! a"
    if "Some a \<notin> set (array_at (slice_arrays s) (mGrid m))" for a
    using that by (intro assign_at_frame(2) [OF ia]) auto
  then show ?thesis
    using assign_at_frame(1) [OF ia] by (simp add: in_place_def sm sm')
qed

lemma set_flag_in_place: "set_flag sm i j b = Done sm' \<Longrightarrow> in_place sm sm'"
proof -
  assume run: "set_flag sm i j b = Done sm'"
  obtain s m where sm: "sm = (s, m)" by (cases sm)
  from run obtain row ba where row: "index_at (slice_arrays s) (mVisited m) i = Done row"
    and ba: "assign_at (bool_arrays s) row j b = Done ba"
    and sm': "sm' = (s\<lparr>bool_arrays := ba\<rparr>, m)"
    by (auto simp: set_flag_def sm bind_Done_iff)
  have "row \<in> set (array_at (slice_arrays s) (mVisited m))" by (rule index_at_mem [OF row])
  then have "ba ! a = bool_arrays s ! a"
    if "Some a \<notin> set (array_at (slice_arrays s) (mVisited m))" for a
    using that by (intro assign_at_frame(2) [OF ba]) auto
  then show ?thesis
    using assign_at_frame(1) [OF ba] by (simp add: in_place_def sm sm')
qed

lemma set_path_mem_in_place: "set_path_mem sm wy wx = Done sm' \<Longrightarrow> in_place sm sm'"
  by (auto simp: set_path_mem_def in_place_refl dest: set_pixel_in_place split: if_splits)

lemma for_each_in_place:
  assumes "\<And>x s s'. f x s = Done s' \<Longrightarrow> in_place s s'" and "for_each xs f s = Done s'"
  shows "in_place s s'"
  by (rule for_each_rel [where P = in_place and f = f and xs = xs])
     (auto intro: assms in_place_refl in_place_trans)

lemma fill_cell_mem_in_place: "fill_cell_mem sm sy sx = Done sm' \<Longrightarrow> in_place sm sm'"
  unfolding fill_cell_mem_def
  by (erule for_each_in_place [rotated], erule for_each_in_place [rotated],
      erule set_path_mem_in_place)

lemma open_up_mem_in_place: "open_up_mem sm sy sx = Done sm' \<Longrightarrow> in_place sm sm'"
  unfolding open_up_mem_def
  by (erule for_each_in_place [rotated], erule for_each_in_place [rotated],
      erule set_path_mem_in_place)

lemma open_left_mem_in_place: "open_left_mem sm sy sx = Done sm' \<Longrightarrow> in_place sm sm'"
  unfolding open_left_mem_def
  by (erule for_each_in_place [rotated], erule for_each_in_place [rotated],
      erule set_path_mem_in_place)

lemma open_down_mem_in_place: "open_down_mem sm sy sx = Done sm' \<Longrightarrow> in_place sm sm'"
  unfolding open_down_mem_def
  by (erule for_each_in_place [rotated], erule for_each_in_place [rotated],
      erule set_path_mem_in_place)

lemma open_right_mem_in_place: "open_right_mem sm sy sx = Done sm' \<Longrightarrow> in_place sm sm'"
  unfolding open_right_mem_def
  by (erule for_each_in_place [rotated], erule for_each_in_place [rotated],
      erule set_path_mem_in_place)

lemma visit_mem_in_place:
  assumes rec: "\<And>sm r c sm'. rec sm r c = Done sm' \<Longrightarrow> in_place sm sm'"
    and wall: "\<And>sm sm'. open_wall sm = Done sm' \<Longrightarrow> in_place sm sm'"
    and run: "visit_mem rec inside nr nc open_wall sm = Done sm'"
  shows "in_place sm sm'"
proof (cases "inside")
  case False
  then show ?thesis using run by (simp add: visit_mem_def in_place_refl)
next
  case True
  then obtain v where v: "get_flag sm nr nc = Done v"
    and rest: "(if \<not> v then bind (open_wall sm) (\<lambda>sm. rec sm nr nc) else Done sm) = Done sm'"
    using run by (auto simp: visit_mem_def bind_Done_iff)
  show ?thesis
  proof (cases v)
    case True
    then show ?thesis using rest by (simp add: in_place_refl)
  next
    case False
    then obtain sm1 where "open_wall sm = Done sm1" "rec sm1 nr nc = Done sm'"
      using rest by (auto simp: bind_Done_iff)
    then show ?thesis using wall rec in_place_trans by blast
  qed
qed

lemma switch_dir_mem_cases:
  assumes "switch_dir_mem rec r c sy sx dir sm = Done sm'"
  obtains
      (up) "dir = 0"
        "visit_mem rec (isub r 1 \<ge> 0) (isub r 1) c (\<lambda>sm. open_up_mem sm sy sx) sm = Done sm'"
    | (left) "dir = 1"
        "visit_mem rec (isub c 1 \<ge> 0) r (isub c 1) (\<lambda>sm. open_left_mem sm sy sx) sm = Done sm'"
    | (down) "dir = 2"
        "visit_mem rec (iadd r 1 < mRows (snd sm)) (iadd r 1) c
           (\<lambda>sm. open_down_mem sm sy sx) sm = Done sm'"
    | (right) "dir = 3"
        "visit_mem rec (iadd c 1 < mCols (snd sm)) r (iadd c 1)
           (\<lambda>sm. open_right_mem sm sy sx) sm = Done sm'"
    | (none) "dir \<noteq> 0" "dir \<noteq> 1" "dir \<noteq> 2" "dir \<noteq> 3" "sm' = sm"
proof (cases "dir = 0")
  case True
  then show ?thesis using assms up by (simp add: switch_dir_mem_def)
next
  case n0: False
  show ?thesis
  proof (cases "dir = 1")
    case True
    then show ?thesis using assms left by (simp add: switch_dir_mem_def)
  next
    case n1: False
    show ?thesis
    proof (cases "dir = 2")
      case True
      then show ?thesis using assms down by (simp add: switch_dir_mem_def)
    next
      case n2: False
      show ?thesis
      proof (cases "dir = 3")
        case True
        then show ?thesis using assms right by (simp add: switch_dir_mem_def)
      next
        case False
        then show ?thesis using assms none n0 n1 n2 by (simp add: switch_dir_mem_def)
      qed
    qed
  qed
qed

lemma switch_dir_mem_in_place:
  assumes rec: "\<And>sm r c sm'. rec sm r c = Done sm' \<Longrightarrow> in_place sm sm'"
    and run: "switch_dir_mem rec r c sy sx dir sm = Done sm'"
  shows "in_place sm sm'"
  using run
proof (cases rule: switch_dir_mem_cases)
  case up
  show ?thesis
    by (rule visit_mem_in_place [OF _ _ up(2)]) (erule rec, erule open_up_mem_in_place)
next
  case left
  show ?thesis
    by (rule visit_mem_in_place [OF _ _ left(2)]) (erule rec, erule open_left_mem_in_place)
next
  case down
  show ?thesis
    by (rule visit_mem_in_place [OF _ _ down(2)]) (erule rec, erule open_down_mem_in_place)
next
  case right
  show ?thesis
    by (rule visit_mem_in_place [OF _ _ right(2)]) (erule rec, erule open_right_mem_in_place)
next
  case none
  then show ?thesis by (simp add: in_place_refl)
qed

lemma in_place_Rnd: "in_place sm (fst sm, (snd sm)\<lparr>mRnd := x\<rparr>)"
  by (cases sm) (simp add: in_place_def)

lemma in_place_config:
  "in_place sm sm' \<Longrightarrow> mCellSize (snd sm') = mCellSize (snd sm) \<and>
     mWallThickness (snd sm') = mWallThickness (snd sm) \<and>
     mCols (snd sm') = mCols (snd sm) \<and> mRows (snd sm') = mRows (snd sm) \<and>
     mGrid (snd sm') = mGrid (snd sm) \<and> mVisited (snd sm') = mVisited (snd sm) \<and>
     slice_arrays (fst sm') = slice_arrays (fst sm)"
  by (cases sm, cases sm') (simp add: in_place_def)

lemma dfs_mem_Suc_DoneE:
  assumes "dfs_mem src (Suc n) sm r c = Done sm'"
  obtains sm1 sm2 g where
    "set_flag sm r c True = Done sm1"
    "fill_cell_mem sm1
       (iadd (mWallThickness (snd sm1))
          (imul r (iadd (mCellSize (snd sm1)) (mWallThickness (snd sm1)))))
       (iadd (mWallThickness (snd sm1))
          (imul c (iadd (mCellSize (snd sm1)) (mWallThickness (snd sm1))))) = Done sm2"
    "mRnd (snd sm2) = Some g"
    "for_each (fst (Perm src g 4))
       (switch_dir_mem (dfs_mem src n) r c
          (iadd (mWallThickness (snd sm1))
             (imul r (iadd (mCellSize (snd sm1)) (mWallThickness (snd sm1)))))
          (iadd (mWallThickness (snd sm1))
             (imul c (iadd (mCellSize (snd sm1)) (mWallThickness (snd sm1))))))
       (fst sm2, (snd sm2)\<lparr>mRnd := Some (snd (Perm src g 4))\<rparr>) = Done sm'"
  using assms
  by (auto simp: bind_Done_iff Let_def case_prod_beta split: option.splits)

lemma dfs_mem_in_place: "dfs_mem src n sm r c = Done sm' \<Longrightarrow> in_place sm sm'"
proof (induction n arbitrary: sm r c sm')
  case 0
  then show ?case by simp
next
  case (Suc n)
  from Suc.prems obtain sm1 sm2 g sy sx where
    flag: "set_flag sm r c True = Done sm1"
    and fill: "fill_cell_mem sm1 sy sx = Done sm2"
    and loop: "for_each (fst (Perm src g 4)) (switch_dir_mem (dfs_mem src n) r c sy sx)
                 (fst sm2, (snd sm2)\<lparr>mRnd := Some (snd (Perm src g 4))\<rparr>) = Done sm'"
    by (rule dfs_mem_Suc_DoneE)
  have 1: "in_place sm sm1" by (rule set_flag_in_place [OF flag])
  have 2: "in_place sm1 sm2" by (rule fill_cell_mem_in_place [OF fill])
  have 3: "in_place sm2 (fst sm2, (snd sm2)\<lparr>mRnd := Some (snd (Perm src g 4))\<rparr>)"
    by (rule in_place_Rnd)
  have 4: "in_place (fst sm2, (snd sm2)\<lparr>mRnd := Some (snd (Perm src g 4))\<rparr>) sm'"
    by (rule for_each_rel [where P = in_place, OF _ in_place_refl in_place_trans loop])
       (erule switch_dir_mem_in_place [OF Suc.IH, rotated])
  show ?case using 1 2 3 4 in_place_trans by blast
qed

lemma reset_in_place:
  assumes cell: "\<And>i j sm sm'. f sm i j = Done sm' \<Longrightarrow> in_place sm sm'"
    and run: "for_each xs (\<lambda>i sm. bind (g sm i) (\<lambda>row. for_each (ys sm row) (\<lambda>j sm. f sm i j) sm)) sm
              = Done sm'"
  shows "in_place sm sm'"
proof (rule for_each_in_place [OF _ run])
  fix i t t'
  assume "bind (g t i) (\<lambda>row. for_each (ys t row) (\<lambda>j sm. f sm i j) t) = Done t'"
  then obtain row where "for_each (ys t row) (\<lambda>j sm. f sm i j) t = Done t'"
    by (auto simp: bind_Done_iff)
  then show "in_place t t'" by (rule for_each_in_place [rotated]) (erule cell)
qed

lemma Generate_mem_in_place:
  assumes "Generate_mem src n sm seed1 seed2 = Done sm'"
  shows "in_place sm sm'"
proof -
  let ?sm0 = "(fst sm, (snd sm)\<lparr>mRnd := Some (NewPCG src seed1 seed2)\<rparr>)"
  from assms obtain sm1 sm2 where
    grid: "for_each (range_int (len_at (slice_arrays (fst ?sm0)) (mGrid (snd ?sm0))))
             (\<lambda>i sm. bind (index_at (slice_arrays (fst sm)) (mGrid (snd sm)) i) (\<lambda>row.
                for_each (range_int (len_at (int_arrays (fst sm)) row))
                  (\<lambda>j sm. set_pixel sm i j 1) sm)) ?sm0 = Done sm1"
    and vis: "for_each (range_int (len_at (slice_arrays (fst sm1)) (mVisited (snd sm1))))
             (\<lambda>i sm. bind (index_at (slice_arrays (fst sm)) (mVisited (snd sm)) i) (\<lambda>row.
                for_each (range_int (len_at (bool_arrays (fst sm)) row))
                  (\<lambda>j sm. set_flag sm i j False) sm)) sm1 = Done sm2"
    and dfs: "dfs_mem src n sm2 0 0 = Done sm'"
    unfolding Generate_mem_def Let_def by (auto simp: bind_Done_iff)
  have 0: "in_place sm ?sm0" by (rule in_place_Rnd)
  have 1: "in_place ?sm0 sm1"
    by (rule reset_in_place [where f = "\<lambda>sm i j. set_pixel sm i j 1", OF _ grid])
       (erule set_pixel_in_place)
  have 2: "in_place sm1 sm2"
    by (rule reset_in_place [where f = "\<lambda>sm i j. set_flag sm i j False", OF _ vis])
       (erule set_flag_in_place)
  have 3: "in_place sm2 sm'" by (rule dfs_mem_in_place [OF dfs])
  show ?thesis using 0 1 2 3 in_place_trans by blast
qed

lemma array_at_length:
  assumes "map length mem' = map length mem"
  shows "length (array_at mem' sl) = length (array_at mem sl)"
proof (cases sl)
  case None
  then show ?thesis by simp
next
  case (Some a)
  have len: "length mem' = length mem" using assms by (rule map_eq_imp_length_eq)
  show ?thesis
  proof (cases "a < length mem")
    case True
    then have "map length mem' ! a = map length mem ! a" using assms by simp
    then show ?thesis using True len Some by simp
  next
    case False
    then show ?thesis using len Some by simp
  qed
qed

lemma in_place_frame: "in_place sm sm' \<Longrightarrow> frame (contents sm) (contents sm')"
  by (cases sm, cases sm')
     (auto simp: in_place_def frame_def contents_def intro: array_at_length)

subsection \<open>The values that the store holds\<close>

lemma unshared_in_place: "in_place sm sm' \<Longrightarrow> unshared sm' = unshared sm"
  by (cases sm, cases sm') (simp add: in_place_def unshared_def)

lemma map_result_bind: "map_result f (bind x g) = bind x (\<lambda>u. map_result f (g u))"
  by (cases x) simp_all

lemma bind_Done_map: "bind x (\<lambda>u. Done (f u)) = map_result f x"
  by (cases x) simp_all

lemma bind_sim:
  assumes "map_result a x = map_result b y"
    and "\<And>u v. x = Done u \<Longrightarrow> y = Done v \<Longrightarrow> a u = b v \<Longrightarrow> map_result c (f u) = g v"
  shows "map_result c (bind x f) = bind y g"
  using assms by (cases x; cases y) auto

lemma for_each_sim:
  assumes step: "\<And>x t. x \<in> set xs \<Longrightarrow> I t \<Longrightarrow> map_result \<alpha> (f x t) = g x (\<alpha> t)"
    and keep: "\<And>x t t'. x \<in> set xs \<Longrightarrow> I t \<Longrightarrow> f x t = Done t' \<Longrightarrow> I t'"
    and inv: "I t"
  shows "map_result \<alpha> (for_each xs f t) = for_each xs g (\<alpha> t)"
  using assms
proof (induction xs arbitrary: t)
  case Nil
  show ?case by simp
next
  case (Cons x xs)
  have s: "map_result \<alpha> (f x t) = g x (\<alpha> t)" using Cons.prems(1,3) by simp
  show ?case
  proof (cases "f x t")
    case (Done t1)
    then have g: "g x (\<alpha> t) = Done (\<alpha> t1)" using s by simp
    have t1: "I t1" using Cons.prems(2) [of x t t1] Cons.prems(3) Done by simp
    have "map_result \<alpha> (for_each xs f t1) = for_each xs g (\<alpha> t1)"
    proof (rule Cons.IH)
      show "\<And>y u. y \<in> set xs \<Longrightarrow> I u \<Longrightarrow> map_result \<alpha> (f y u) = g y (\<alpha> u)"
        using Cons.prems(1) by simp
      show "\<And>y u u'. y \<in> set xs \<Longrightarrow> I u \<Longrightarrow> f y u = Done u' \<Longrightarrow> I u'"
        using Cons.prems(2) by (meson list.set_intros(2))
      show "I t1" by (rule t1)
    qed
    then show ?thesis using Done g by simp
  next
    case (Panic e)
    then have "g x (\<alpha> t) = Panic e" using s by simp
    then show ?thesis using Panic by simp
  next
    case OutOfFuel
    then have "g x (\<alpha> t) = OutOfFuel" using s by simp
    then show ?thesis using OutOfFuel by simp
  qed
qed

lemma array_at_update:
  assumes "a < length mem"
  shows "array_at (mem[a := xs]) sl = (if sl = Some a then xs else array_at mem sl)"
  using assms by (cases sl) auto

lemma store2_row:
  "0 \<le> i \<Longrightarrow> i < int (length xss) \<Longrightarrow>
   store2 xss i j v =
     (if 0 \<le> j \<and> j < int (length (xss ! nat i))
      then Done (xss[nat i := (xss ! nat i)[nat j := v]]) else Panic IndexOutOfRange)"
  by (simp add: store2_def)

lemma assign_at_sim:
  assumes d: "distinct rows" and i: "0 \<le> i" "i < int (length rows)"
  shows "map_result (\<lambda>mem'. map (array_at mem') rows) (assign_at mem (rows ! nat i) j v)
         = store2 (map (array_at mem) rows) i j v"
proof -
  define arr where "arr = array_at mem (rows ! nat i)"
  have row: "map (array_at mem) rows ! nat i = arr" using i by (simp add: arr_def)
  have st: "store2 (map (array_at mem) rows) i j v =
     (if 0 \<le> j \<and> j < int (length arr)
      then Done ((map (array_at mem) rows)[nat i := arr[nat j := v]])
      else Panic IndexOutOfRange)"
    using store2_row [of i "map (array_at mem) rows" j v] i unfolding row by simp
  show ?thesis
  proof (cases "rows ! nat i")
    case None
    then have "arr = []" by (simp add: arr_def)
    then show ?thesis unfolding st using None by simp
  next
    case (Some a)
    have as: "assign_at mem (rows ! nat i) j v =
       (if 0 \<le> j \<and> j < int (length arr) then Done (mem[a := (mem ! a)[nat j := v]])
        else Panic IndexOutOfRange)"
      unfolding Some arr_def by (simp add: len_at_def)
    show ?thesis
    proof (cases "0 \<le> j \<and> j < int (length arr)")
      case False
      then have "\<not> (0 \<le> j \<and> j < int (length arr))" by simp
      then show ?thesis unfolding st as by (simp only: if_False result.map)
    next
      case True
      then have "arr \<noteq> []" by auto
      then have a: "a < length mem" and arr: "arr = mem ! a"
        unfolding arr_def Some by (auto split: if_splits)
      have "map (array_at (mem[a := arr[nat j := v]])) rows
          = (map (array_at mem) rows)[nat i := arr[nat j := v]]"
      proof (rule nth_equalityI)
        fix k assume "k < length (map (array_at (mem[a := arr[nat j := v]])) rows)"
        then have k: "k < length rows" by simp
        show "map (array_at (mem[a := arr[nat j := v]])) rows ! k
            = (map (array_at mem) rows)[nat i := arr[nat j := v]] ! k"
        proof (cases "k = nat i")
          case True
          then show ?thesis using k Some a by (simp add: array_at_update)
        next
          case False
          then have "rows ! k \<noteq> Some a"
            using d k i Some nth_eq_iff_index_eq [of rows k "nat i"] by auto
          then show ?thesis using k False a by (simp add: array_at_update)
        qed
      qed simp
      then show ?thesis unfolding st as using True by (simp add: arr)
    qed
  qed
qed

lemma set_pixel_sim:
  assumes "unshared sm"
  shows "map_result contents (set_pixel sm i j v)
         = map_result (\<lambda>G. (contents sm)\<lparr>Grid := G\<rparr>) (store2 (Grid (contents sm)) i j v)"
proof -
  obtain s m where sm: "sm = (s, m)" by (cases sm)
  let ?rows = "array_at (slice_arrays s) (mGrid m)"
  have d: "distinct ?rows" using assms by (simp add: unshared_def sm)
  show ?thesis
  proof (cases "0 \<le> i \<and> i < int (length ?rows)")
    case False
    then show ?thesis
      by (auto simp: set_pixel_def sm index_at_def len_at_def contents_def store2_def)
  next
    case True
    have "map_result contents (set_pixel sm i j v)
        = map_result (\<lambda>ia. contents (s\<lparr>int_arrays := ia\<rparr>, m))
            (assign_at (int_arrays s) (?rows ! nat i) j v)"
      using True
      by (simp add: set_pixel_def sm index_at_def len_at_def map_result_bind bind_Done_map
          result.map_comp comp_def)
    also have "\<dots> = map_result (\<lambda>G. (contents sm)\<lparr>Grid := G\<rparr>)
        (map_result (\<lambda>mem'. map (array_at mem') ?rows)
           (assign_at (int_arrays s) (?rows ! nat i) j v))"
      by (simp add: result.map_comp comp_def contents_def sm)
    also have "\<dots> = map_result (\<lambda>G. (contents sm)\<lparr>Grid := G\<rparr>)
        (store2 (Grid (contents sm)) i j v)"
      using assign_at_sim [OF d, of i "int_arrays s" j v] True by (simp add: contents_def sm)
    finally show ?thesis .
  qed
qed

lemma set_flag_sim:
  assumes "unshared sm"
  shows "map_result contents (set_flag sm i j b)
         = map_result (\<lambda>V. (contents sm)\<lparr>Visited := V\<rparr>) (store2 (Visited (contents sm)) i j b)"
proof -
  obtain s m where sm: "sm = (s, m)" by (cases sm)
  let ?rows = "array_at (slice_arrays s) (mVisited m)"
  have d: "distinct ?rows" using assms by (simp add: unshared_def sm)
  show ?thesis
  proof (cases "0 \<le> i \<and> i < int (length ?rows)")
    case False
    then show ?thesis
      by (auto simp: set_flag_def sm index_at_def len_at_def contents_def store2_def)
  next
    case True
    have "map_result contents (set_flag sm i j b)
        = map_result (\<lambda>ba. contents (s\<lparr>bool_arrays := ba\<rparr>, m))
            (assign_at (bool_arrays s) (?rows ! nat i) j b)"
      using True
      by (simp add: set_flag_def sm index_at_def len_at_def map_result_bind bind_Done_map
          result.map_comp comp_def)
    also have "\<dots> = map_result (\<lambda>V. (contents sm)\<lparr>Visited := V\<rparr>)
        (map_result (\<lambda>mem'. map (array_at mem') ?rows)
           (assign_at (bool_arrays s) (?rows ! nat i) j b))"
      by (simp add: result.map_comp comp_def contents_def sm)
    also have "\<dots> = map_result (\<lambda>V. (contents sm)\<lparr>Visited := V\<rparr>)
        (store2 (Visited (contents sm)) i j b)"
      using assign_at_sim [OF d, of i "bool_arrays s" j b] True by (simp add: contents_def sm)
    finally show ?thesis .
  qed
qed

lemma get_flag_sim: "get_flag sm i j = load2 (Visited (contents sm)) i j"
  by (cases sm) (auto simp: get_flag_def index_at_def len_at_def contents_def load2_def)

lemma in_bounds_mem_sim: "in_bounds_mem sm wy wx = in_bounds (Grid (contents sm)) wy wx"
proof -
  obtain s m where sm: "sm = (s, m)" by (cases sm)
  show ?thesis
  proof (cases "array_at (slice_arrays s) (mGrid m)")
    case Nil
    then show ?thesis by (auto simp: in_bounds_mem_def in_bounds_def sm contents_def len_at_def)
  next
    case (Cons row rows)
    then show ?thesis by (simp add: in_bounds_mem_def in_bounds_def sm contents_def len_at_def)
  qed
qed

lemma set_path_mem_sim:
  assumes "unshared sm"
  shows "map_result contents (set_path_mem sm wy wx) = set_path (contents sm) wy wx"
  using set_pixel_sim [OF assms, of wy wx 0]
  by (simp add: set_path_mem_def set_path_def in_bounds_mem_sim bind_Done_map)

lemma paint_loop_sim:
  fixes sm :: "store \<times> 'g Maze_ptr"
  assumes u: "unshared sm"
    and fy: "\<And>x y t. fm x y t = fv x y (contents t)"
    and gx: "\<And>x y t. gm x y t = gv x y (contents t)"
  shows "map_result contents
           (for_each xs (\<lambda>x. for_each ys (\<lambda>y t. set_path_mem t (fm x y t) (gm x y t))) sm)
         = for_each xs (\<lambda>x. for_each ys (\<lambda>y m. set_path m (fv x y m) (gv x y m))) (contents sm)"
proof (rule for_each_sim [where I = unshared])
  fix x and t :: "store \<times> 'g Maze_ptr" assume t: "unshared t"
  show "map_result contents (for_each ys (\<lambda>y t. set_path_mem t (fm x y t) (gm x y t)) t)
      = for_each ys (\<lambda>y m. set_path m (fv x y m) (gv x y m)) (contents t)"
  proof (rule for_each_sim [where I = unshared])
    fix y and t' :: "store \<times> 'g Maze_ptr" assume "unshared t'"
    then show "map_result contents (set_path_mem t' (fm x y t') (gm x y t'))
        = set_path (contents t') (fv x y (contents t')) (gv x y (contents t'))"
      by (simp add: set_path_mem_sim fy gx)
  next
    fix y and t1 t2 :: "store \<times> 'g Maze_ptr"
    assume "unshared t1" "set_path_mem t1 (fm x y t1) (gm x y t1) = Done t2"
    then show "unshared t2"
      using unshared_in_place [OF set_path_mem_in_place, of t1 _ _ t2] by simp
  qed (rule t)
next
  fix x and t t' :: "store \<times> 'g Maze_ptr"
  assume t: "unshared t"
    and run: "for_each ys (\<lambda>y t. set_path_mem t (fm x y t) (gm x y t)) t = Done t'"
  have "in_place t t'"
    by (rule for_each_in_place [OF _ run]) (erule set_path_mem_in_place)
  then show "unshared t'" using t by (simp add: unshared_in_place)
qed (rule u)

lemma contents_simps [simp]:
  "CellSize (contents sm) = mCellSize (snd sm)"
  "WallThickness (contents sm) = mWallThickness (snd sm)"
  "Cols (contents sm) = mCols (snd sm)"
  "Rows (contents sm) = mRows (snd sm)"
  "Rnd (contents sm) = mRnd (snd sm)"
  by (cases sm; simp add: contents_def)+

lemma fill_cell_mem_sim:
  "unshared sm \<Longrightarrow> map_result contents (fill_cell_mem sm sy sx) = fill_cell (contents sm) sy sx"
  unfolding fill_cell_mem_def fill_cell_def contents_simps [symmetric]
  by (rule paint_loop_sim) simp_all

lemma open_up_mem_sim:
  "unshared sm \<Longrightarrow> map_result contents (open_up_mem sm sy sx) = open_up (contents sm) sy sx"
  unfolding open_up_mem_def open_up_def contents_simps [symmetric]
  by (rule paint_loop_sim) simp_all

lemma open_left_mem_sim:
  "unshared sm \<Longrightarrow> map_result contents (open_left_mem sm sy sx) = open_left (contents sm) sy sx"
  unfolding open_left_mem_def open_left_def contents_simps [symmetric]
  by (rule paint_loop_sim) simp_all

lemma open_down_mem_sim:
  "unshared sm \<Longrightarrow> map_result contents (open_down_mem sm sy sx) = open_down (contents sm) sy sx"
  unfolding open_down_mem_def open_down_def contents_simps [symmetric]
  by (rule paint_loop_sim) simp_all

lemma open_right_mem_sim:
  "unshared sm \<Longrightarrow> map_result contents (open_right_mem sm sy sx) = open_right (contents sm) sy sx"
  unfolding open_right_mem_def open_right_def contents_simps [symmetric]
  by (rule paint_loop_sim) simp_all

lemma visit_mem_sim:
  fixes sm :: "store \<times> 'g Maze_ptr"
  assumes rec: "\<And>t r c. unshared t \<Longrightarrow> map_result contents (recm t r c) = recv (contents t) r c"
    and wall: "\<And>t. unshared t \<Longrightarrow> map_result contents (wallm t) = wallv (contents t)"
    and keep: "\<And>t t'. wallm t = Done t' \<Longrightarrow> in_place t t'"
    and u: "unshared sm"
  shows "map_result contents (visit_mem recm inside nr nc wallm sm)
         = visit recv inside nr nc wallv (contents sm)"
proof (cases inside)
  case False
  then show ?thesis by (simp add: visit_mem_def visit_def)
next
  case True
  show ?thesis
  proof (cases "load2 (Visited (contents sm)) nr nc")
    case (Done v)
    show ?thesis
    proof (cases v)
      case True
      then show ?thesis using \<open>inside\<close> Done by (simp add: visit_mem_def visit_def get_flag_sim)
    next
      case False
      have "map_result contents (bind (wallm sm) (\<lambda>t. recm t nr nc))
          = bind (wallv (contents sm)) (\<lambda>m. recv m nr nc)"
      proof (rule bind_sim [where a = contents and b = "\<lambda>m. m"])
        show "map_result contents (wallm sm) = map_result (\<lambda>m. m) (wallv (contents sm))"
          using wall [OF u] by (simp add: result.map_ident)
      next
        fix t m assume t: "wallm sm = Done t" and "contents t = m"
        then have "unshared t" using keep [OF t] u by (simp add: unshared_in_place)
        then show "map_result contents (recm t nr nc) = recv m nr nc"
          using rec \<open>contents t = m\<close> by simp
      qed
      then show ?thesis
        using \<open>inside\<close> Done False by (simp add: visit_mem_def visit_def get_flag_sim)
    qed
  next
    case (Panic e)
    then show ?thesis using True by (simp add: visit_mem_def visit_def get_flag_sim)
  next
    case OutOfFuel
    then show ?thesis using True by (simp add: visit_mem_def visit_def get_flag_sim)
  qed
qed

lemma switch_dir_mem_sim:
  fixes sm :: "store \<times> 'g Maze_ptr"
  assumes rec: "\<And>t r c. unshared t \<Longrightarrow> map_result contents (recm t r c) = recv (contents t) r c"
    and u: "unshared sm"
  shows "map_result contents (switch_dir_mem recm r c sy sx dir sm)
         = switch_dir recv r c sy sx dir (contents sm)"
proof -
  have up: "map_result contents
      (visit_mem recm inside nr nc (\<lambda>sm. open_up_mem sm sy sx) sm)
      = visit recv inside nr nc (\<lambda>m. open_up m sy sx) (contents sm)" for inside nr nc
    by (rule visit_mem_sim [where recm = recm and recv = recv
          and wallm = "\<lambda>sm. open_up_mem sm sy sx" and wallv = "\<lambda>m. open_up m sy sx"])
       (auto simp: rec open_up_mem_sim u intro: open_up_mem_in_place)
  have left: "map_result contents
      (visit_mem recm inside nr nc (\<lambda>sm. open_left_mem sm sy sx) sm)
      = visit recv inside nr nc (\<lambda>m. open_left m sy sx) (contents sm)" for inside nr nc
    by (rule visit_mem_sim [where recm = recm and recv = recv
          and wallm = "\<lambda>sm. open_left_mem sm sy sx" and wallv = "\<lambda>m. open_left m sy sx"])
       (auto simp: rec open_left_mem_sim u intro: open_left_mem_in_place)
  have down: "map_result contents
      (visit_mem recm inside nr nc (\<lambda>sm. open_down_mem sm sy sx) sm)
      = visit recv inside nr nc (\<lambda>m. open_down m sy sx) (contents sm)" for inside nr nc
    by (rule visit_mem_sim [where recm = recm and recv = recv
          and wallm = "\<lambda>sm. open_down_mem sm sy sx" and wallv = "\<lambda>m. open_down m sy sx"])
       (auto simp: rec open_down_mem_sim u intro: open_down_mem_in_place)
  have right: "map_result contents
      (visit_mem recm inside nr nc (\<lambda>sm. open_right_mem sm sy sx) sm)
      = visit recv inside nr nc (\<lambda>m. open_right m sy sx) (contents sm)" for inside nr nc
    by (rule visit_mem_sim [where recm = recm and recv = recv
          and wallm = "\<lambda>sm. open_right_mem sm sy sx" and wallv = "\<lambda>m. open_right m sy sx"])
       (auto simp: rec open_right_mem_sim u intro: open_right_mem_in_place)
  show ?thesis
    unfolding switch_dir_mem_def switch_dir_def
    by (simp add: up left down right)
qed

lemma contents_Rnd:
  "contents (fst sm, (snd sm)\<lparr>mRnd := x\<rparr>) = (contents sm)\<lparr>Rnd := x\<rparr>"
  by (cases sm) (simp add: contents_def)

lemma unshared_Rnd: "unshared (fst sm, (snd sm)\<lparr>mRnd := x\<rparr>) = unshared sm"
  by (cases sm) (simp add: unshared_def)

lemma dfs_mem_sim:
  fixes sm :: "store \<times> 'g Maze_ptr"
  shows "unshared sm \<Longrightarrow> map_result contents (dfs_mem src n sm r c) = dfs src n (contents sm) r c"
proof (induction n arbitrary: sm r c)
  case 0
  show ?case by simp
next
  case (Suc n)
  let ?m = "contents sm"
  let ?sy = "iadd (WallThickness ?m) (imul r (iadd (CellSize ?m) (WallThickness ?m)))"
  let ?sx = "iadd (WallThickness ?m) (imul c (iadd (CellSize ?m) (WallThickness ?m)))"
  have "map_result contents (dfs_mem src (Suc n) sm r c)
      = bind (store2 (Visited ?m) r c True) (\<lambda>vis.
          bind (fill_cell (?m\<lparr>Visited := vis\<rparr>) ?sy ?sx) (\<lambda>m.
            case Rnd m of
              None \<Rightarrow> Panic NilDereference
            | Some g \<Rightarrow>
                (case Perm src g 4 of (dirs, g') \<Rightarrow>
                   for_each dirs (switch_dir (dfs src n) r c ?sy ?sx) (m\<lparr>Rnd := Some g'\<rparr>))))"
    unfolding dfs_mem.simps
  proof (rule bind_sim [where a = contents and b = "\<lambda>vis. ?m\<lparr>Visited := vis\<rparr>"])
    show "map_result contents (set_flag sm r c True)
        = map_result (\<lambda>vis. ?m\<lparr>Visited := vis\<rparr>) (store2 (Visited ?m) r c True)"
      by (rule set_flag_sim [OF Suc.prems])
  next
    fix sm1 :: "store \<times> 'g Maze_ptr" and vis
    assume flag: "set_flag sm r c True = Done sm1"
      and c1: "contents sm1 = ?m\<lparr>Visited := vis\<rparr>"
    have ip: "in_place sm sm1" by (rule set_flag_in_place [OF flag])
    have u1: "unshared sm1" using ip Suc.prems by (simp add: unshared_in_place)
    have cfg: "mWallThickness (snd sm1) = WallThickness ?m" "mCellSize (snd sm1) = CellSize ?m"
      using in_place_config [OF ip] by simp_all
    show "map_result contents
           (let m = snd sm1;
                startY = iadd (mWallThickness m) (imul r (iadd (mCellSize m) (mWallThickness m)));
                startX = iadd (mWallThickness m) (imul c (iadd (mCellSize m) (mWallThickness m)))
            in bind (fill_cell_mem sm1 startY startX) (\<lambda>sm.
                 case mRnd (snd sm) of
                   None \<Rightarrow> Panic NilDereference
                 | Some g \<Rightarrow>
                     (case Perm src g 4 of (dirs, g') \<Rightarrow>
                        for_each dirs (switch_dir_mem (dfs_mem src n) r c startY startX)
                          (fst sm, (snd sm)\<lparr>mRnd := Some g'\<rparr>))))
        = bind (fill_cell (?m\<lparr>Visited := vis\<rparr>) ?sy ?sx) (\<lambda>m.
            case Rnd m of
              None \<Rightarrow> Panic NilDereference
            | Some g \<Rightarrow>
                (case Perm src g 4 of (dirs, g') \<Rightarrow>
                   for_each dirs (switch_dir (dfs src n) r c ?sy ?sx) (m\<lparr>Rnd := Some g'\<rparr>)))"
      unfolding Let_def cfg
    proof (rule bind_sim [where a = contents and b = "\<lambda>m. m"])
      show "map_result contents (fill_cell_mem sm1 ?sy ?sx)
          = map_result (\<lambda>m. m) (fill_cell (?m\<lparr>Visited := vis\<rparr>) ?sy ?sx)"
        using fill_cell_mem_sim [OF u1, of ?sy ?sx] c1 by (simp add: result.map_ident)
    next
      fix sm2 :: "store \<times> 'g Maze_ptr" and m2
      assume fill: "fill_cell_mem sm1 ?sy ?sx = Done sm2" and c2: "contents sm2 = m2"
      have u2: "unshared sm2"
        using fill_cell_mem_in_place [OF fill] u1 by (simp add: unshared_in_place)
      have rnd: "Rnd m2 = mRnd (snd sm2)" using c2 by auto
      show "map_result contents
             (case mRnd (snd sm2) of
                None \<Rightarrow> Panic NilDereference
              | Some g \<Rightarrow>
                  (case Perm src g 4 of (dirs, g') \<Rightarrow>
                     for_each dirs (switch_dir_mem (dfs_mem src n) r c ?sy ?sx)
                       (fst sm2, (snd sm2)\<lparr>mRnd := Some g'\<rparr>)))
          = (case Rnd m2 of
               None \<Rightarrow> Panic NilDereference
             | Some g \<Rightarrow>
                 (case Perm src g 4 of (dirs, g') \<Rightarrow>
                    for_each dirs (switch_dir (dfs src n) r c ?sy ?sx) (m2\<lparr>Rnd := Some g'\<rparr>)))"
      proof (cases "mRnd (snd sm2)")
        case None
        then show ?thesis using rnd by simp
      next
        case (Some g)
        obtain dirs g' where p: "Perm src g 4 = (dirs, g')" by (cases "Perm src g 4")
        have "map_result contents
               (for_each dirs (switch_dir_mem (dfs_mem src n) r c ?sy ?sx)
                  (fst sm2, (snd sm2)\<lparr>mRnd := Some g'\<rparr>))
            = for_each dirs (switch_dir (dfs src n) r c ?sy ?sx)
                (contents (fst sm2, (snd sm2)\<lparr>mRnd := Some g'\<rparr>))"
        proof (rule for_each_sim [where I = unshared])
          fix d and t :: "store \<times> 'g Maze_ptr" assume t: "unshared t"
          show "map_result contents (switch_dir_mem (dfs_mem src n) r c ?sy ?sx d t)
              = switch_dir (dfs src n) r c ?sy ?sx d (contents t)"
            by (rule switch_dir_mem_sim [where recm = "dfs_mem src n" and recv = "dfs src n"])
               (auto simp: Suc.IH t)
        next
          fix d and t t' :: "store \<times> 'g Maze_ptr"
          assume t: "unshared t"
            and run: "switch_dir_mem (dfs_mem src n) r c ?sy ?sx d t = Done t'"
          have "in_place t t'"
            by (rule switch_dir_mem_in_place [OF _ run]) (erule dfs_mem_in_place)
          then show "unshared t'" using t by (simp add: unshared_in_place)
        next
          show "unshared (fst sm2, (snd sm2)\<lparr>mRnd := Some g'\<rparr>)"
            using u2 by (simp add: unshared_Rnd)
        qed
        then show ?thesis using Some rnd p c2 by (simp add: contents_Rnd)
      qed
    qed
  qed
  then show ?case
    by (simp add: Let_def del: contents_simps cong: option.case_cong prod.case_cong)
qed

lemma store_loop:
  assumes "0 \<le> i" "i < int (length G)"
    and "\<forall>j\<in>set js. 0 \<le> j \<and> j < int (length (G ! nat i))"
  shows "for_each js (\<lambda>j G. store2 G i j v) G
         = Done (G[nat i := map (\<lambda>k. if int k \<in> set js then v else G ! nat i ! k)
                              [0..<length (G ! nat i)]])"
  using assms
proof (induction js arbitrary: G)
  case Nil
  then show ?case by (simp add: map_nth)
next
  case (Cons j js)
  let ?G1 = "G[nat i := (G ! nat i)[nat j := v]]"
  have j: "0 \<le> j" "j < int (length (G ! nat i))" using Cons.prems(3) by simp_all
  have st: "store2 G i j v = Done ?G1" using Cons.prems(1,2) j by (simp add: store2_row)
  have row: "?G1 ! nat i = (G ! nat i)[nat j := v]" using Cons.prems(1,2) by simp
  have "for_each js (\<lambda>j G. store2 G i j v) ?G1
      = Done (?G1[nat i := map (\<lambda>k. if int k \<in> set js then v else ?G1 ! nat i ! k)
                              [0..<length (?G1 ! nat i)]])"
    using Cons.prems by (intro Cons.IH) (simp_all add: row)
  moreover have "map (\<lambda>k. if int k \<in> set js then v else ?G1 ! nat i ! k) [0..<length (?G1 ! nat i)]
      = map (\<lambda>k. if int k \<in> set (j # js) then v else G ! nat i ! k) [0..<length (G ! nat i)]"
    unfolding row using j by (auto simp: nth_list_update)
  ultimately show ?case using st by simp
qed

lemma set_range_int_nat: "int k \<in> set (range_int (int n)) \<longleftrightarrow> k < n"
  by (simp add: set_range_int)

lemma reset_row:
  assumes "0 \<le> i" "i < int (length G)"
  shows "for_each (range_int (int (length (G ! nat i)))) (\<lambda>j G. store2 G i j v) G
         = Done (G[nat i := map (\<lambda>_. v) (G ! nat i)])"
proof -
  have "map (\<lambda>k. if int k \<in> set (range_int (int (length (G ! nat i)))) then v else G ! nat i ! k)
          [0..<length (G ! nat i)] = map (\<lambda>_. v) (G ! nat i)"
    by (rule nth_equalityI) (simp_all add: set_range_int_nat)
  then show ?thesis
    using store_loop [OF assms, of "range_int (int (length (G ! nat i)))" v]
    by (simp add: set_range_int)
qed

lemma reset_rows:
  assumes "\<forall>i\<in>set is. 0 \<le> i \<and> i < int (length G)"
  shows "for_each is
           (\<lambda>i G. for_each (range_int (int (length (G ! nat i)))) (\<lambda>j G. store2 G i j v) G) G
         = Done (map (\<lambda>k. if int k \<in> set is then map (\<lambda>_. v) (G ! k) else G ! k)
                   [0..<length G])"
  using assms
proof (induction "is" arbitrary: G)
  case Nil
  then show ?case by (simp add: map_nth)
next
  case (Cons i "is")
  let ?G1 = "G[nat i := map (\<lambda>_. v) (G ! nat i)]"
  have i: "0 \<le> i" "i < int (length G)" using Cons.prems by simp_all
  have st: "for_each (range_int (int (length (G ! nat i)))) (\<lambda>j G. store2 G i j v) G = Done ?G1"
    by (rule reset_row [OF i])
  have "for_each is
          (\<lambda>i G. for_each (range_int (int (length (G ! nat i)))) (\<lambda>j G. store2 G i j v) G) ?G1
      = Done (map (\<lambda>k. if int k \<in> set is then map (\<lambda>_. v) (?G1 ! k) else ?G1 ! k)
                [0..<length ?G1])"
    using Cons.prems by (intro Cons.IH) simp
  moreover have "map (\<lambda>k. if int k \<in> set is then map (\<lambda>_. v) (?G1 ! k) else ?G1 ! k)
                [0..<length ?G1]
      = map (\<lambda>k. if int k \<in> set (i # is) then map (\<lambda>_. v) (G ! k) else G ! k) [0..<length G]"
    using i by (auto simp: nth_list_update)
  ultimately show ?case using st by simp
qed

lemma reset_all:
  "for_each (range_int (int (length G)))
     (\<lambda>i G. for_each (range_int (int (length (G ! nat i)))) (\<lambda>j G. store2 G i j v) G) G
   = Done (map (map (\<lambda>_. v)) G)"
proof -
  have "map (\<lambda>k. if int k \<in> set (range_int (int (length G))) then map (\<lambda>_. v) (G ! k) else G ! k)
          [0..<length G] = map (map (\<lambda>_. v)) G"
    by (rule nth_equalityI) (simp_all add: set_range_int_nat)
  then show ?thesis
    using reset_rows [of "range_int (int (length G))" G v] by (simp add: set_range_int)
qed

lemma for_each_Grid:
  "for_each xs (\<lambda>x m. map_result (\<lambda>G. m\<lparr>Grid := G\<rparr>) (h x (Grid m))) m
   = map_result (\<lambda>G. m\<lparr>Grid := G\<rparr>) (for_each xs h (Grid m))"
proof (induction xs arbitrary: m)
  case Nil
  show ?case by simp
next
  case (Cons x xs)
  show ?case by (cases "h x (Grid m)") (simp_all add: Cons.IH)
qed

lemma for_each_Visited:
  "for_each xs (\<lambda>x m. map_result (\<lambda>V. m\<lparr>Visited := V\<rparr>) (h x (Visited m))) m
   = map_result (\<lambda>V. m\<lparr>Visited := V\<rparr>) (for_each xs h (Visited m))"
proof (induction xs arbitrary: m)
  case Nil
  show ?case by simp
next
  case (Cons x xs)
  show ?case by (cases "h x (Visited m)") (simp_all add: Cons.IH)
qed

lemma reset_Grid:
  "for_each (range_int (int (length (Grid m))))
     (\<lambda>i m. for_each (range_int (int (length (Grid m ! nat i))))
        (\<lambda>j m. map_result (\<lambda>G. m\<lparr>Grid := G\<rparr>) (store2 (Grid m) i j v)) m) m
   = Done (m\<lparr>Grid := map (map (\<lambda>_. v)) (Grid m)\<rparr>)"
  by (simp add: for_each_Grid [where h = "\<lambda>j G. store2 G i j v" for i]
      for_each_Grid [where h = "\<lambda>i G. for_each (range_int (int (length (G ! nat i))))
        (\<lambda>j G. store2 G i j v) G"] reset_all)

lemma reset_Visited:
  "for_each (range_int (int (length (Visited m))))
     (\<lambda>i m. for_each (range_int (int (length (Visited m ! nat i))))
        (\<lambda>j m. map_result (\<lambda>V. m\<lparr>Visited := V\<rparr>) (store2 (Visited m) i j v)) m) m
   = Done (m\<lparr>Visited := map (map (\<lambda>_. v)) (Visited m)\<rparr>)"
  by (simp add: for_each_Visited [where h = "\<lambda>j V. store2 V i j v" for i]
      for_each_Visited [where h = "\<lambda>i V. for_each (range_int (int (length (V ! nat i))))
        (\<lambda>j V. store2 V i j v) V"] reset_all)

lemma reset_Grid_sim:
  fixes sm :: "store \<times> 'g Maze_ptr"
  assumes u: "unshared sm"
  shows "map_result contents
           (for_each (range_int (len_at (slice_arrays (fst sm)) (mGrid (snd sm))))
              (\<lambda>i sm. bind (index_at (slice_arrays (fst sm)) (mGrid (snd sm)) i) (\<lambda>row.
                 for_each (range_int (len_at (int_arrays (fst sm)) row))
                   (\<lambda>j sm. set_pixel sm i j v) sm)) sm)
         = Done ((contents sm)\<lparr>Grid := map (map (\<lambda>_. v)) (Grid (contents sm))\<rparr>)"
proof -
  let ?n = "len_at (slice_arrays (fst sm)) (mGrid (snd sm))"
  have n: "?n = int (length (Grid (contents sm)))"
    by (cases sm) (simp add: contents_def len_at_def)
  have "map_result contents
           (for_each (range_int ?n)
              (\<lambda>i sm. bind (index_at (slice_arrays (fst sm)) (mGrid (snd sm)) i) (\<lambda>row.
                 for_each (range_int (len_at (int_arrays (fst sm)) row))
                   (\<lambda>j sm. set_pixel sm i j v) sm)) sm)
      = for_each (range_int ?n)
          (\<lambda>i m. for_each (range_int (int (length (Grid m ! nat i))))
             (\<lambda>j m. map_result (\<lambda>G. m\<lparr>Grid := G\<rparr>) (store2 (Grid m) i j v)) m) (contents sm)"
  proof (rule for_each_sim [where I = "\<lambda>t. unshared t \<and> in_place sm t"])
    fix i and t :: "store \<times> 'g Maze_ptr"
    assume i: "i \<in> set (range_int ?n)" and t: "unshared t \<and> in_place sm t"
    obtain s m where tm: "t = (s, m)" by (cases t)
    let ?rows = "array_at (slice_arrays s) (mGrid m)"
    have same: "slice_arrays s = slice_arrays (fst sm)" "mGrid m = mGrid (snd sm)"
      using in_place_config [of sm t] t by (simp_all add: tm)
    then have i': "0 \<le> i" "i < int (length ?rows)"
      using i by (simp_all add: set_range_int len_at_def)
    have row: "index_at (slice_arrays (fst t)) (mGrid (snd t)) i = Done (?rows ! nat i)"
      using i' by (simp add: index_at_def len_at_def tm)
    have len: "len_at (int_arrays (fst t)) (?rows ! nat i)
        = int (length (Grid (contents t) ! nat i))"
      using i' by (simp add: len_at_def contents_def tm)
    have "map_result contents
            (for_each (range_int (int (length (Grid (contents t) ! nat i))))
               (\<lambda>j sm. set_pixel sm i j v) t)
        = for_each (range_int (int (length (Grid (contents t) ! nat i))))
            (\<lambda>j m. map_result (\<lambda>G. m\<lparr>Grid := G\<rparr>) (store2 (Grid m) i j v)) (contents t)"
    proof (rule for_each_sim [where I = unshared])
      fix j and t1 :: "store \<times> 'g Maze_ptr" assume "unshared t1"
      then show "map_result contents (set_pixel t1 i j v)
          = map_result (\<lambda>G. (contents t1)\<lparr>Grid := G\<rparr>) (store2 (Grid (contents t1)) i j v)"
        by (rule set_pixel_sim)
    next
      fix j and t1 t2 :: "store \<times> 'g Maze_ptr"
      assume "unshared t1" "set_pixel t1 i j v = Done t2"
      then show "unshared t2"
        using unshared_in_place [OF set_pixel_in_place, of t1 i j v t2] by simp
    qed (use t in simp)
    then show "map_result contents
            (bind (index_at (slice_arrays (fst t)) (mGrid (snd t)) i) (\<lambda>row.
               for_each (range_int (len_at (int_arrays (fst t)) row))
                 (\<lambda>j sm. set_pixel sm i j v) t))
        = for_each (range_int (int (length (Grid (contents t) ! nat i))))
            (\<lambda>j m. map_result (\<lambda>G. m\<lparr>Grid := G\<rparr>) (store2 (Grid m) i j v)) (contents t)"
      unfolding row by (simp add: len)
  next
    fix i and t t' :: "store \<times> 'g Maze_ptr"
    assume t: "unshared t \<and> in_place sm t"
      and run: "bind (index_at (slice_arrays (fst t)) (mGrid (snd t)) i) (\<lambda>row.
               for_each (range_int (len_at (int_arrays (fst t)) row))
                 (\<lambda>j sm. set_pixel sm i j v) t) = Done t'"
    from run obtain row where
      "for_each (range_int (len_at (int_arrays (fst t)) row)) (\<lambda>j sm. set_pixel sm i j v) t
       = Done t'"
      by (auto simp: bind_Done_iff)
    then have "in_place t t'"
      by (rule for_each_in_place [rotated]) (erule set_pixel_in_place)
    then show "unshared t' \<and> in_place sm t'"
      using t in_place_trans [of sm t t'] by (simp add: unshared_in_place)
  qed (simp add: u in_place_refl)
  then show ?thesis unfolding n by (simp add: reset_Grid)
qed

lemma reset_Visited_sim:
  fixes sm :: "store \<times> 'g Maze_ptr"
  assumes u: "unshared sm"
  shows "map_result contents
           (for_each (range_int (len_at (slice_arrays (fst sm)) (mVisited (snd sm))))
              (\<lambda>i sm. bind (index_at (slice_arrays (fst sm)) (mVisited (snd sm)) i) (\<lambda>row.
                 for_each (range_int (len_at (bool_arrays (fst sm)) row))
                   (\<lambda>j sm. set_flag sm i j v) sm)) sm)
         = Done ((contents sm)\<lparr>Visited := map (map (\<lambda>_. v)) (Visited (contents sm))\<rparr>)"
proof -
  let ?n = "len_at (slice_arrays (fst sm)) (mVisited (snd sm))"
  have n: "?n = int (length (Visited (contents sm)))"
    by (cases sm) (simp add: contents_def len_at_def)
  have "map_result contents
           (for_each (range_int ?n)
              (\<lambda>i sm. bind (index_at (slice_arrays (fst sm)) (mVisited (snd sm)) i) (\<lambda>row.
                 for_each (range_int (len_at (bool_arrays (fst sm)) row))
                   (\<lambda>j sm. set_flag sm i j v) sm)) sm)
      = for_each (range_int ?n)
          (\<lambda>i m. for_each (range_int (int (length (Visited m ! nat i))))
             (\<lambda>j m. map_result (\<lambda>V. m\<lparr>Visited := V\<rparr>) (store2 (Visited m) i j v)) m)
          (contents sm)"
  proof (rule for_each_sim [where I = "\<lambda>t. unshared t \<and> in_place sm t"])
    fix i and t :: "store \<times> 'g Maze_ptr"
    assume i: "i \<in> set (range_int ?n)" and t: "unshared t \<and> in_place sm t"
    obtain s m where tm: "t = (s, m)" by (cases t)
    let ?rows = "array_at (slice_arrays s) (mVisited m)"
    have same: "slice_arrays s = slice_arrays (fst sm)" "mVisited m = mVisited (snd sm)"
      using in_place_config [of sm t] t by (simp_all add: tm)
    then have i': "0 \<le> i" "i < int (length ?rows)"
      using i by (simp_all add: set_range_int len_at_def)
    have row: "index_at (slice_arrays (fst t)) (mVisited (snd t)) i = Done (?rows ! nat i)"
      using i' by (simp add: index_at_def len_at_def tm)
    have len: "len_at (bool_arrays (fst t)) (?rows ! nat i)
        = int (length (Visited (contents t) ! nat i))"
      using i' by (simp add: len_at_def contents_def tm)
    have "map_result contents
            (for_each (range_int (int (length (Visited (contents t) ! nat i))))
               (\<lambda>j sm. set_flag sm i j v) t)
        = for_each (range_int (int (length (Visited (contents t) ! nat i))))
            (\<lambda>j m. map_result (\<lambda>V. m\<lparr>Visited := V\<rparr>) (store2 (Visited m) i j v)) (contents t)"
    proof (rule for_each_sim [where I = unshared])
      fix j and t1 :: "store \<times> 'g Maze_ptr" assume "unshared t1"
      then show "map_result contents (set_flag t1 i j v)
          = map_result (\<lambda>V. (contents t1)\<lparr>Visited := V\<rparr>) (store2 (Visited (contents t1)) i j v)"
        by (rule set_flag_sim)
    next
      fix j and t1 t2 :: "store \<times> 'g Maze_ptr"
      assume "unshared t1" "set_flag t1 i j v = Done t2"
      then show "unshared t2"
        using unshared_in_place [OF set_flag_in_place, of t1 i j v t2] by simp
    qed (use t in simp)
    then show "map_result contents
            (bind (index_at (slice_arrays (fst t)) (mVisited (snd t)) i) (\<lambda>row.
               for_each (range_int (len_at (bool_arrays (fst t)) row))
                 (\<lambda>j sm. set_flag sm i j v) t))
        = for_each (range_int (int (length (Visited (contents t) ! nat i))))
            (\<lambda>j m. map_result (\<lambda>V. m\<lparr>Visited := V\<rparr>) (store2 (Visited m) i j v)) (contents t)"
      unfolding row by (simp add: len)
  next
    fix i and t t' :: "store \<times> 'g Maze_ptr"
    assume t: "unshared t \<and> in_place sm t"
      and run: "bind (index_at (slice_arrays (fst t)) (mVisited (snd t)) i) (\<lambda>row.
               for_each (range_int (len_at (bool_arrays (fst t)) row))
                 (\<lambda>j sm. set_flag sm i j v) t) = Done t'"
    from run obtain row where
      "for_each (range_int (len_at (bool_arrays (fst t)) row)) (\<lambda>j sm. set_flag sm i j v) t
       = Done t'"
      by (auto simp: bind_Done_iff)
    then have "in_place t t'"
      by (rule for_each_in_place [rotated]) (erule set_flag_in_place)
    then show "unshared t' \<and> in_place sm t'"
      using t in_place_trans [of sm t t'] by (simp add: unshared_in_place)
  qed (simp add: u in_place_refl)
  then show ?thesis unfolding n by (simp add: reset_Visited)
qed

lemma map_result_Done_iff: "map_result f x = Done y \<longleftrightarrow> (\<exists>u. x = Done u \<and> f u = y)"
  by (cases x) auto

lemma Generate_mem_sim:
  fixes sm :: "store \<times> 'g Maze_ptr"
  assumes u: "unshared sm"
  shows "map_result contents (Generate_mem src n sm seed1 seed2)
         = Generate src n (contents sm) seed1 seed2"
proof -
  let ?sm0 = "(fst sm, (snd sm)\<lparr>mRnd := Some (NewPCG src seed1 seed2)\<rparr>)"
  let ?m0 = "(contents sm)\<lparr>Rnd := Some (NewPCG src seed1 seed2)\<rparr>"
  have u0: "unshared ?sm0" using u by (simp add: unshared_Rnd)
  have c0: "contents ?sm0 = ?m0" by (rule contents_Rnd)
  from reset_Grid_sim [OF u0, of 1] obtain sm1 where
    grid: "for_each (range_int (len_at (slice_arrays (fst ?sm0)) (mGrid (snd ?sm0))))
             (\<lambda>i sm. bind (index_at (slice_arrays (fst sm)) (mGrid (snd sm)) i) (\<lambda>row.
                for_each (range_int (len_at (int_arrays (fst sm)) row))
                  (\<lambda>j sm. set_pixel sm i j 1) sm)) ?sm0 = Done sm1"
    and c1: "contents sm1 = ?m0\<lparr>Grid := map (map (\<lambda>_. 1)) (Grid ?m0)\<rparr>"
    unfolding c0 map_result_Done_iff by blast
  have "in_place ?sm0 sm1"
    by (rule reset_in_place [where f = "\<lambda>sm i j. set_pixel sm i j 1", OF _ grid])
       (erule set_pixel_in_place)
  then have u1: "unshared sm1" using u0 by (simp add: unshared_in_place)
  from reset_Visited_sim [OF u1, of False] obtain sm2 where
    vis: "for_each (range_int (len_at (slice_arrays (fst sm1)) (mVisited (snd sm1))))
             (\<lambda>i sm. bind (index_at (slice_arrays (fst sm)) (mVisited (snd sm)) i) (\<lambda>row.
                for_each (range_int (len_at (bool_arrays (fst sm)) row))
                  (\<lambda>j sm. set_flag sm i j False) sm)) sm1 = Done sm2"
    and c2: "contents sm2 = (contents sm1)\<lparr>Visited := map (map (\<lambda>_. False)) (Visited (contents sm1))\<rparr>"
    unfolding map_result_Done_iff by blast
  have "in_place sm1 sm2"
    by (rule reset_in_place [where f = "\<lambda>sm i j. set_flag sm i j False", OF _ vis])
       (erule set_flag_in_place)
  then have u2: "unshared sm2" using u1 by (simp add: unshared_in_place)
  have "Generate_mem src n sm seed1 seed2 = dfs_mem src n sm2 0 0"
    unfolding Generate_mem_def Let_def using grid vis by simp
  moreover have "Generate src n (contents sm) seed1 seed2 = dfs src n (contents sm2) 0 0"
    unfolding Generate_def Let_def c2 c1 by simp
  ultimately show ?thesis using dfs_mem_sim [OF u2] by simp
qed

subsection \<open>Allocation in the store\<close>

lemma range_int_nat: "range_int (int n) = map int [0..<n]"
proof (induction n)
  case 0
  show ?case by (simp add: range_int_def)
next
  case (Suc n)
  have "[0..int n] = [0..int n - 1] @ [int n]" by (simp add: upto_rec2)
  then show ?case using Suc by (simp add: range_int_def)
qed

lemma make_rows_loop:
  assumes "mat < length sa" and "length (sa ! mat) = n" and "k \<le> n" and "0 \<le> c"
  shows "for_each (map int [k..<n])
           (\<lambda>i (sa, mem). bind (make_at mem c z) (\<lambda>(mem, row).
                           bind (assign_at sa (Some mat) i row) (\<lambda>sa. Done (sa, mem))))
           (sa, mem)
         = Done (sa[mat := take k (sa ! mat) @ map Some [length mem..<length mem + (n - k)]],
                 mem @ replicate (n - k) (replicate (nat c) z))"
  using assms
proof (induction "n - k" arbitrary: k sa mem)
  case 0
  then show ?case by simp
next
  case (Suc d)
  then have lt: "k < n" by simp
  let ?sa1 = "sa[mat := (sa ! mat)[k := Some (length mem)]]"
  let ?mem1 = "mem @ [replicate (nat c) z]"
  have step: "bind (make_at mem c z) (\<lambda>(mem, row).
                bind (assign_at sa (Some mat) (int k) row) (\<lambda>sa. Done (sa, mem)))
              = Done (?sa1, ?mem1)"
    using Suc.prems lt by (simp add: make_at_def make_slice_def len_at_def)
  have sa1: "mat < length ?sa1" "length (?sa1 ! mat) = n" "?sa1 ! mat = (sa ! mat)[k := Some (length mem)]"
    using Suc.prems by simp_all
  have "for_each (map int [k..<n])
           (\<lambda>i (sa, mem). bind (make_at mem c z) (\<lambda>(mem, row).
                           bind (assign_at sa (Some mat) i row) (\<lambda>sa. Done (sa, mem))))
           (sa, mem)
      = for_each (map int [Suc k..<n])
           (\<lambda>i (sa, mem). bind (make_at mem c z) (\<lambda>(mem, row).
                           bind (assign_at sa (Some mat) i row) (\<lambda>sa. Done (sa, mem))))
           (?sa1, ?mem1)"
    using lt step by (simp add: upt_conv_Cons del: upt_Suc)
  also have "\<dots> = Done (?sa1[mat := take (Suc k) (?sa1 ! mat)
                          @ map Some [length ?mem1..<length ?mem1 + (n - Suc k)]],
                        ?mem1 @ replicate (n - Suc k) (replicate (nat c) z))"
    using Suc.hyps(2) lt Suc.prems(4)
    by (intro Suc.hyps(1) sa1(1,2)) simp_all
  also have "?sa1[mat := take (Suc k) (?sa1 ! mat)
                          @ map Some [length ?mem1..<length ?mem1 + (n - Suc k)]]
      = sa[mat := take k (sa ! mat) @ map Some [length mem..<length mem + (n - k)]]"
  proof -
    have "take (Suc k) ((sa ! mat)[k := Some (length mem)]) = take k (sa ! mat) @ [Some (length mem)]"
      using lt Suc.prems(2) by (simp add: take_Suc_conv_app_nth)
    moreover have "Suc (length mem) + (n - Suc k) = length mem + (n - k)" using lt by simp
    then have "[length mem..<length mem + (n - k)]
        = length mem # [Suc (length mem)..<Suc (length mem) + (n - Suc k)]"
      using lt by (simp add: upt_conv_Cons del: upt_Suc)
    ultimately show ?thesis unfolding sa1(3) by simp
  qed
  also have "?mem1 @ replicate (n - Suc k) (replicate (nat c) z)
      = mem @ replicate (n - k) (replicate (nat c) z)"
  proof -
    have "replicate (n - k) (replicate (nat c) z)
        = replicate (nat c) z # replicate (n - Suc k) (replicate (nat c) z)"
      using lt by (metis Suc_diff_Suc replicate_Suc)
    then show ?thesis by simp
  qed
  finally show ?case .
qed

lemma make_rows_ok:
  assumes "mat < length sa" and "0 \<le> c"
  shows "make_rows sa mem (Some mat) c z
         = Done (sa[mat := map Some [length mem..<length mem + length (sa ! mat)]],
                 mem @ replicate (length (sa ! mat)) (replicate (nat c) z))"
  using make_rows_loop [OF assms(1) refl, of 0 c z mem] assms
  by (simp add: make_rows_def len_at_def range_int_nat)

lemma make_rows_panic:
  assumes "mat < length sa" and "c < 0"
  shows "make_rows sa mem (Some mat) c z
         = (if sa ! mat = [] then Done (sa, mem) else Panic NegativeLen)"
proof (cases "sa ! mat")
  case Nil
  then have "range_int (len_at sa (Some mat)) = []"
    using assms by (simp add: len_at_def range_int_def)
  then show ?thesis using Nil by (simp add: make_rows_def)
next
  case (Cons x xs)
  then have "range_int (len_at sa (Some mat)) = 0 # [1..int (length (sa ! mat)) - 1]"
    using assms by (simp add: len_at_def range_int_def upto_rec1)
  then show ?thesis
    using assms Cons by (simp add: make_rows_def make_at_def make_slice_def)
qed

lemma make_at_ok: "0 \<le> n \<Longrightarrow> make_at mem n z = Done (mem @ [replicate (nat n) z], Some (length mem))"
  by (simp add: make_at_def make_slice_def)

lemma make_at_panic: "n < 0 \<Longrightarrow> make_at mem n z = Panic NegativeLen"
  by (simp add: make_at_def make_slice_def)

lemma make_rows_new:
  "make_rows (sa @ [replicate n None]) mem (Some (length sa)) c z
   = (if c < 0 \<and> 0 < n then Panic NegativeLen
      else Done (sa @ [map Some [length mem..<length mem + n]],
                 mem @ replicate n (replicate (nat c) z)))"
proof (cases "c < 0")
  case True
  then show ?thesis
    using make_rows_panic [of "length sa" "sa @ [replicate n None]" c mem z]
    by (cases n) simp_all
next
  case False
  then show ?thesis
    using make_rows_ok [of "length sa" "sa @ [replicate n None]" c mem z] by simp
qed

lemma NewMaze_mem_eq:
  "NewMaze_mem s w h cs wt =
     (let R = wrap64 (h * cs + (h + 1) * wt); C = wrap64 (w * cs + (w + 1) * wt) in
      if R < 0 \<or> (0 < R \<and> C < 0) \<or> h < 0 \<or> (0 < h \<and> w < 0) then Panic NegativeLen
      else Done
        (\<lparr>slice_arrays = slice_arrays s @
            [map Some [length (int_arrays s)..<length (int_arrays s) + nat R],
             map Some [length (bool_arrays s)..<length (bool_arrays s) + nat h]],
          int_arrays = int_arrays s @ replicate (nat R) (replicate (nat C) 0),
          bool_arrays = bool_arrays s @ replicate (nat h) (replicate (nat w) False)\<rparr>,
         \<lparr>mGrid = Some (length (slice_arrays s)), mVisited = Some (Suc (length (slice_arrays s))),
          mRnd = None, mCellSize = cs, mWallThickness = wt, mCols = w, mRows = h\<rparr>))"
proof -
  let ?R = "wrap64 (h * cs + (h + 1) * wt)" and ?C = "wrap64 (w * cs + (w + 1) * wt)"
  let ?sa1 = "slice_arrays s @ [map Some [length (int_arrays s)..<length (int_arrays s) + nat ?R]]"
  show ?thesis
  proof (cases "?R < 0")
    case True
    then show ?thesis by (simp add: NewMaze_mem_def dim_wrap Let_def make_at_panic)
  next
    case R: False
    show ?thesis
    proof (cases "?C < 0 \<and> 0 < ?R")
      case True
      then show ?thesis
        using R by (simp add: NewMaze_mem_def dim_wrap Let_def make_at_ok make_rows_new)
    next
      case C: False
      show ?thesis
      proof (cases "h < 0")
        case True
        then show ?thesis
          using R C
          by (simp add: NewMaze_mem_def dim_wrap Let_def make_at_ok make_at_panic make_rows_new)
      next
        case h: False
        have v: "make_rows (?sa1 @ [replicate (nat h) None]) (bool_arrays s) (Some (Suc (length (slice_arrays s)))) w False
            = (if w < 0 \<and> 0 < nat h then Panic NegativeLen
               else Done (?sa1 @ [map Some [length (bool_arrays s)..<length (bool_arrays s) + nat h]],
                          bool_arrays s @ replicate (nat h) (replicate (nat w) False)))"
          using make_rows_new [of ?sa1 "nat h" "bool_arrays s" w False] by simp
        show ?thesis
        proof (cases "w < 0 \<and> 0 < h")
          case True
          then show ?thesis
            using R C h
            by (auto simp: NewMaze_mem_def dim_wrap Let_def make_at_ok make_rows_new v)
        next
          case False
          then show ?thesis
            using R C h
            by (auto simp: NewMaze_mem_def dim_wrap Let_def make_at_ok make_rows_new v)
        qed
      qed
    qed
  qed
qed

lemma map_array_at_new:
  "map (array_at (mem @ replicate n xs) \<circ> Some) [length mem..<length mem + n] = replicate n xs"
  by (rule nth_equalityI) (simp_all add: nth_append)

lemma NewMaze_mem_sim: "map_result contents (NewMaze_mem s w h cs wt) = NewMaze w h cs wt"
  unfolding NewMaze_mem_eq NewMaze_eq Let_def
  by (simp add: contents_def nth_append map_array_at_new)

lemma NewMaze_mem_unshared:
  fixes sm :: "store \<times> 'g Maze_ptr"
  assumes "NewMaze_mem s w h cs wt = Done sm"
  shows "unshared sm"
  using assms unfolding NewMaze_mem_eq Let_def
  by (auto simp: unshared_def nth_append distinct_map split: if_splits)

subsection \<open>The sample source and instances\<close>

lemma rot_source_contract: "perm_contract rot_source"
  by (simp add: perm_contract_def rot_source_def upt_conv_Cons)

lemma demo_fresh_new: "NewMaze 2 1 4 1 = Done demo_fresh"
  by code_simp

lemma demo_generated_run: "Generate rot_source 2 demo_fresh 0 0 = Done demo_generated"
  by code_simp

lemma demo_regenerated: "regenerated rot_source demo_fresh demo_generated"
  by (rule regenerated.again [OF regenerated.fresh demo_generated_run])

lemma demo_empty_new: "NewMaze 0 0 4 1 = Done demo_empty"
  by code_simp

lemma demo_wide_new: "NewMaze 3 3 6148914691236517205 1 = Done demo_wide"
  by code_simp

lemma demo_tight_new: "NewMaze 1 1 4 9223372036854775807 = Done demo_tight"
  by code_simp

lemma demo_tight_run: "Generate rot_source 1 demo_tight 0 0 = Done demo_tight_generated"
  by code_simp

lemma demo_thick_new: "NewMaze 2 2 1 6148914691236517206 = Done demo_thick"
  by code_simp

lemma demo_flat_new: "NewMaze 2 2 1 0 = Done demo_flat"
  by code_simp

lemma demo_flat_run: "Generate rot_source 4 demo_flat 0 1 = Done demo_flat_generated"
  by code_simp

lemma demo_flat_passages:
  "{e \<in> passages demo_flat_generated. passage_open demo_flat_generated e}
   = {((0, 0), 2), ((0, 0), 3), ((0, 1), 2), ((1, 0), 3)}"
proof -
  have c: "cells demo_flat_generated = {(0, 0), (0, 1), (1, 0), (1, 1)}"
    by (auto simp: cells_def demo_flat_generated_def)
  have "passages demo_flat_generated = {((0, 0), 2), ((0, 0), 3), ((0, 1), 2), ((1, 0), 3)}"
    unfolding passages_def c by auto
  moreover have "passage_open demo_flat_generated e" for e
    by (cases e, cases "fst e")
       (auto simp: passage_open_def demo_flat_generated_def rect_def)
  ultimately show ?thesis by blast
qed

lemma demo_mem_new: "NewMaze_mem other_store 2 1 4 1 = Done (demo_store, demo_ptr)"
  by code_simp

lemma demo_mem_run:
  "Generate_mem rot_source 2 (demo_store, demo_ptr) 0 0
   = Done (demo_store_generated, demo_ptr_generated)"
  by code_simp

section \<open>The properties\<close>

text \<open>
  C1, where the pixel dimensions do not overflow. For \<open>cols > 0\<close>, \<open>rows > 0\<close>, \<open>cellSize > 0\<close> and
  \<open>wallThickness >= 0\<close> with \<open>cols*cellSize + (cols+1)*wallThickness\<close> and \<open>rows*cellSize + (rows+1)*wallThickness\<close>
  both below \<open>2^63\<close>, and for every seed pair, \<open>Generate\<close> returns, on the fresh instance and on a
  used one, given a bound of at least \<open>rows*cols\<close> on the depth of \<open>dfs\<close>. In the grid it leaves,
  every pixel of the block of every cell is open, and it is reached from the first pixel
  \<open>(wallThickness, wallThickness)\<close> of the block of cell \<open>(0, 0)\<close> by steps between open pixels
  that share a side.
\<close>

theorem cells_connected:
  assumes "perm_contract src" and "NewMaze w h cs wt = Done m0"
    and "0 < w" "0 < h" "0 < cs" "0 \<le> wt" and "fits w h cs wt"
    and "regenerated src m0 m" and "nat (h * w) \<le> n"
  shows "\<exists>m'. Generate src n m seed1 seed2 = Done m' \<and>
           (\<forall>u\<in>cells m'. \<forall>p\<in>block cs wt u.
              is_open (Grid m') p \<and> ((wt, wt), p) \<in> (walk (Grid m'))\<^sup>*)"
proof -
  from Generate_geometry [OF assms, of seed1 seed2] obtain m' E where
    run: "Generate src n m seed1 seed2 = Done m'" and fr: "frame m0 m'"
    and tr: "tree (cells m0) E"
    and sub: "region cs wt (cells m0) E \<subseteq> inner w h cs wt"
    and gr: "grid_is (nat (pixel_dim h cs wt)) (nat (pixel_dim w cs wt))
               (region cs wt (cells m0) E) (Grid m')" by blast
  have op: "\<And>p. p \<in> region cs wt (cells m0) E \<Longrightarrow> is_open (Grid m') p"
    by (rule open_in_region [OF gr sub assms(6)])
  have cells: "cells m' = cells m0" by (rule frame_cells [OF fr])
  have "is_open (Grid m') p \<and> ((wt, wt), p) \<in> (walk (Grid m'))\<^sup>*"
    if u: "u \<in> cells m0" and p: "p \<in> block cs wt u" for u p
  proof -
    have blk: "\<And>q. q \<in> block cs wt u \<Longrightarrow> is_open (Grid m') q"
      using op u unfolding region_def by blast
    have "(corner cs wt (0, 0), corner cs wt u) \<in> (walk (Grid m'))\<^sup>*"
      by (rule tree_connected [OF assms(5,6) tr op u])
    moreover have "(corner cs wt u, p) \<in> (walk (Grid m'))\<^sup>*"
    proof -
      obtain r c where rc: "u = (r, c)" by (cases u)
      show ?thesis
      proof (rule rect_connected [where ya = "origin cs wt r" and xa = "origin cs wt c"
            and hh = cs and ww = cs])
        fix q assume "q \<in> rect (origin cs wt r) (origin cs wt c) cs cs"
        then show "is_open (Grid m') q" using blk rc by simp
      qed (use corner_in_block [OF assms(5), of wt u] p rc in auto)
    qed
    ultimately have "(corner cs wt (0, 0), p) \<in> (walk (Grid m'))\<^sup>*" by (rule rtrancl_trans)
    then show ?thesis using blk [OF p] by (simp add: corner_def origin_def)
  qed
  then show ?thesis using run cells by auto
qed

theorem cells_connected_witness:
  "perm_contract rot_source \<and> NewMaze 2 1 4 1 = Done demo_fresh \<and>
   (0 :: int) < 2 \<and> (0 :: int) < 1 \<and> (0 :: int) < 4 \<and> (0 :: int) \<le> 1 \<and> fits 2 1 4 1 \<and>
   regenerated rot_source demo_fresh demo_generated \<and> nat (1 * 2) \<le> 2 \<and>
   (\<exists>m'. Generate rot_source 2 demo_generated 0 1 = Done m' \<and> (0, 1) \<in> cells m' \<and>
      (4, 9) \<in> block 4 1 (0, 1) \<and>
      is_open (Grid m') (4, 9) \<and> ((1, 1), (4, 9)) \<in> (walk (Grid m'))\<^sup>*)"
proof -
  have f: "fits 2 1 4 1" by (simp add: fits_def pixel_dim_def)
  from cells_connected [OF rot_source_contract demo_fresh_new _ _ _ _ f demo_regenerated,
      of 2 0 1]
  obtain m' where m': "Generate rot_source 2 demo_generated 0 1 = Done m'"
    "\<forall>u\<in>cells m'. \<forall>p\<in>block 4 1 u.
        is_open (Grid m') p \<and> ((1, 1), p) \<in> (walk (Grid m'))\<^sup>*"
    by auto
  have "frame demo_generated m'" by (rule Generate_frame [OF m'(1)])
  then have c: "(0, 1) \<in> cells m'"
    using frame_cells [of demo_generated m'] by (simp add: cells_def demo_generated_def)
  have b: "(4, 9) \<in> block 4 1 (0, 1)" by (simp add: rect_def origin_def)
  from m'(2) [rule_format, OF c b] m'(1) c b
  have "\<exists>m'. Generate rot_source 2 demo_generated 0 1 = Done m' \<and> (0, 1) \<in> cells m' \<and>
      (4, 9) \<in> block 4 1 (0, 1) \<and>
      is_open (Grid m') (4, 9) \<and> ((1, 1), (4, 9)) \<in> (walk (Grid m'))\<^sup>*"
    by blast
  then show ?thesis using rot_source_contract demo_fresh_new demo_regenerated f by simp
qed

text \<open>
  C1 as stated fails where the dimensions overflow. \<open>NewMaze(2, 2, 1, 6148914691236517206)\<close>
  allocates a grid of 4 by 4 pixels; the block of cell \<open>(0, 0)\<close> is the pixel
  \<open>(6148914691236517206, 6148914691236517206)\<close>, which is not in the grid, so after
  \<open>Generate\<close> it is not an open pixel.
\<close>

theorem cells_connected_counterexample:
  "NewMaze 2 2 1 6148914691236517206 = Done demo_thick \<and> (0, 0) \<in> cells demo_thick \<and>
   (6148914691236517206, 6148914691236517206) \<in> block 1 6148914691236517206 (0, 0) \<and>
   (\<exists>m'. Generate rot_source 4 demo_thick 0 0 = Done m' \<and>
      \<not> is_open (Grid m') (6148914691236517206, 6148914691236517206))"
proof -
  from Generate_maze [OF rot_source_contract demo_thick_new _ _ _ _ regenerated.fresh, of 4 0 0]
  obtain m' where run: "Generate rot_source 4 demo_thick 0 0 = Done m'"
    and fr: "frame demo_thick m'" by auto
  then have "map length (Grid m') = map length (Grid demo_thick)" by (simp add: frame_def)
  then have "length (map length (Grid m')) = 4" by (simp add: demo_thick_def)
  then have "length (Grid m') = 4" by simp
  then have "\<not> is_open (Grid m') (6148914691236517206, 6148914691236517206)"
    by (simp add: is_open_def)
  moreover have "(0, 0) \<in> cells demo_thick" by (simp add: cells_def demo_thick_def)
  moreover have "(6148914691236517206, 6148914691236517206) \<in> block 1 6148914691236517206 (0, 0)"
    by (simp add: rect_def origin_def)
  ultimately show ?thesis using run demo_thick_new by blast
qed

text \<open>
  C2, for a wall of at least one pixel and where the pixel dimensions do not overflow. For
  \<open>cols > 0\<close>, \<open>rows > 0\<close>, \<open>cellSize > 0\<close> and \<open>wallThickness > 0\<close> with
  \<open>cols*cellSize + (cols+1)*wallThickness\<close> and \<open>rows*cellSize + (rows+1)*wallThickness\<close> both below \<open>2^63\<close>, and for every seed pair, \<open>Generate\<close> returns, on the fresh instance and
  on a used one, given a bound of at least \<open>rows*cols\<close> on the depth of \<open>dfs\<close>. Of the passages
  between adjacent cells exactly \<open>rows*cols - 1\<close> are open, and every passage is either open in
  all of its pixels or a wall in all of its pixels.
\<close>

theorem passages_form_tree:
  assumes "perm_contract src" and "NewMaze w h cs wt = Done m0"
    and "0 < w" "0 < h" "0 < cs" "0 < wt" and "fits w h cs wt"
    and "regenerated src m0 m" and "nat (h * w) \<le> n"
  shows "\<exists>m'. Generate src n m seed1 seed2 = Done m' \<and>
           card {e \<in> passages m'. passage_open m' e} = nat (h * w) - 1 \<and>
           (\<forall>e\<in>passages m'. passage_open m' e \<or> passage_walled m' e)"
proof -
  have "0 \<le> wt" using assms(6) by simp
  from open_passages_tree [OF assms(1-5) this assms(7-9) assms(6), of seed1 seed2]
  show ?thesis by blast
qed

theorem passages_form_tree_witness:
  "perm_contract rot_source \<and> NewMaze 2 1 4 1 = Done demo_fresh \<and>
   (0 :: int) < 2 \<and> (0 :: int) < 1 \<and> (0 :: int) < 4 \<and> (0 :: int) < 1 \<and> fits 2 1 4 1 \<and>
   regenerated rot_source demo_fresh demo_generated \<and> nat (1 * 2) \<le> 2 \<and>
   (\<exists>m'. Generate rot_source 2 demo_generated 0 1 = Done m' \<and>
      card {e \<in> passages m'. passage_open m' e} = nat (1 * 2) - 1)"
proof -
  have f: "fits 2 1 4 1" by (simp add: fits_def pixel_dim_def)
  from passages_form_tree [OF rot_source_contract demo_fresh_new _ _ _ _ f demo_regenerated,
      of 2 0 1]
  have "\<exists>m'. Generate rot_source 2 demo_generated 0 1 = Done m' \<and>
      card {e \<in> passages m'. passage_open m' e} = nat (1 * 2) - 1"
    by auto
  then show ?thesis using rot_source_contract demo_fresh_new demo_regenerated f by simp
qed

text \<open>
  C2 as stated fails for \<open>wallThickness = 0\<close>: no pixel lies between two adjacent cells, and
  every passage is open. After \<open>Generate(0, 1)\<close> on \<open>NewMaze(2, 2, 1, 0)\<close> all four passages between
  the four cells are open, not three. It also fails where the dimensions overflow: after
  \<open>Generate(0, 0)\<close> on \<open>NewMaze(2, 2, 1, 6148914691236517206)\<close> no passage is open.
\<close>

theorem passages_form_tree_counterexample:
  "NewMaze 2 2 1 0 = Done demo_flat \<and>
   Generate rot_source 4 demo_flat 0 1 = Done demo_flat_generated \<and>
   card {e \<in> passages demo_flat_generated. passage_open demo_flat_generated e} = 4 \<and>
   nat (2 * 2) - 1 = (3 :: nat) \<and>
   NewMaze 2 2 1 6148914691236517206 = Done demo_thick \<and>
   (\<exists>m'. Generate rot_source 4 demo_thick 0 0 = Done m' \<and>
      card {e \<in> passages m'. passage_open m' e} = 0)"
proof -
  let ?W = "6148914691236517206 :: int"
  have a: "card {e \<in> passages demo_flat_generated. passage_open demo_flat_generated e} = 4"
    unfolding demo_flat_passages by simp
  from Generate_maze [OF rot_source_contract demo_thick_new _ _ _ _ regenerated.fresh, of 4 0 0]
  obtain m' where run: "Generate rot_source 4 demo_thick 0 0 = Done m'"
    and fr: "frame demo_thick m'" by auto
  then have cfg: "CellSize m' = 1" "WallThickness m' = ?W"
    and lens: "map length (Grid m') = map length (Grid demo_thick)"
    by (simp_all add: frame_def demo_thick_def)
  from lens have "length (map length (Grid m')) = 4" by (simp add: demo_thick_def)
  then have len: "length (Grid m') = 4" by simp
  have cells: "cells m' = cells demo_thick" by (rule frame_cells [OF fr])
  have "\<not> passage_open m' e" if "e \<in> passages m'" for e
  proof -
    obtain r c d where rcd: "e = ((r, c), d)" by (cases e) auto
    then have b: "0 \<le> r" "0 \<le> c" and d: "d = 2 \<or> d = 3"
      using that by (auto simp: passages_def cells_def)
    have o: "?W \<le> origin 1 ?W r" using b origin_mono [of 1 ?W 0 r] by (simp add: origin_def)
    have "\<not> is_open (Grid m') (origin 1 ?W r + 1, origin 1 ?W c)"
      "\<not> is_open (Grid m') (origin 1 ?W r, origin 1 ?W c + 1)"
      using o len by (simp_all add: is_open_def)
    moreover have "(origin 1 ?W r + 1, origin 1 ?W c) \<in> gap 1 ?W e
        \<or> (origin 1 ?W r, origin 1 ?W c + 1) \<in> gap 1 ?W e"
      using d rcd by (auto simp: rect_def)
    ultimately show ?thesis unfolding passage_open_def cfg by blast
  qed
  then have "{e \<in> passages m'. passage_open m' e} = {}" by blast
  then have "card {e \<in> passages m'. passage_open m' e} = 0" by (simp only: card.empty)
  then have "\<exists>m'. Generate rot_source 4 demo_thick 0 0 = Done m' \<and>
      card {e \<in> passages m'. passage_open m' e} = 0" using run by blast
  then show ?thesis using a demo_flat_new demo_flat_run demo_thick_new by simp
qed

text \<open>
  C3. Determinism: on an instance that is fresh or has been through any number of calls of
  \<open>Generate\<close> with any seeds, a run of \<open>Generate\<close> with the seed pair \<open>(seed1, seed2)\<close>
  leaves exactly the state -- occupancy grid, visited matrix and random source -- that the
  same run leaves on the fresh instance. The run reads the configuration, the lengths of
  the slices and the seed pair, and nothing of what an earlier run wrote.
\<close>

theorem Generate_deterministic:
  assumes "NewMaze w h cellSize wallThickness = Done m0" and "regenerated src m0 m"
  shows "Generate src n m seed1 seed2 = Generate src n m0 seed1 seed2"
  by (rule Generate_cong [OF regenerated_frame [OF assms(2)]])

theorem Generate_deterministic_witness:
  "NewMaze 2 1 4 1 = Done demo_fresh \<and> regenerated rot_source demo_fresh demo_generated \<and>
   Generate rot_source 2 demo_generated 5 7 = Generate rot_source 2 demo_fresh 5 7"
  using Generate_deterministic [OF demo_fresh_new demo_regenerated, of 2 5 7]
    demo_fresh_new demo_regenerated by simp

text \<open>
  C4. \<open>Size\<close> returns \<open>cols*cellSize + (cols+1)*wallThickness\<close> and
  \<open>rows*cellSize + (rows+1)*wallThickness\<close>, computed in Go's \<open>int\<close> arithmetic as
  \<open>NewMaze\<close> computes the lengths it allocates; the grid has as many rows as the height and
  every row is as long as the width; this holds on the fresh instance and after any calls of
  \<open>Generate\<close>. \<open>Size\<close> is a function of the instance and returns no new state. Where the
  exact values fit an \<open>int\<close>, they are the values returned.
\<close>

theorem Size_matches_grid:
  assumes "NewMaze w h cellSize wallThickness = Done m0" and "regenerated src m0 m"
  shows "Size m = (iadd (imul w cellSize) (imul (iadd w 1) wallThickness),
                   iadd (imul h cellSize) (imul (iadd h 1) wallThickness)) \<and>
         int (length (Grid m)) = snd (Size m) \<and>
         (\<forall>row\<in>set (Grid m). int (length row) = fst (Size m)) \<and>
         (is_int64 (pixel_dim w cellSize wallThickness) \<longrightarrow>
            fst (Size m) = w * cellSize + (w + 1) * wallThickness) \<and>
         (is_int64 (pixel_dim h cellSize wallThickness) \<longrightarrow>
            snd (Size m) = h * cellSize + (h + 1) * wallThickness)"
proof -
  let ?R = "wrap64 (pixel_dim h cellSize wallThickness)"
  let ?C = "wrap64 (pixel_dim w cellSize wallThickness)"
  note new = NewMaze_Done [OF assms(1)]
  have fr: "frame m0 m" by (rule regenerated_frame [OF assms(2)])
  have cfg0: "Rows m0 = h" "Cols m0 = w" "CellSize m0 = cellSize" "WallThickness m0 = wallThickness"
    "map length (Grid m0) = replicate (nat ?R) (nat ?C)"
    by (subst new(1), simp)+
  then have cfg: "Rows m = h" "Cols m = w" "CellSize m = cellSize" "WallThickness m = wallThickness"
    and lens: "map length (Grid m) = replicate (nat ?R) (nat ?C)"
    using fr by (simp_all add: frame_def)
  have size: "Size m = (?C, ?R)"
    by (simp add: Size_def cfg dim_wrap pixel_dim_def)
  have len: "int (length (Grid m)) = ?R"
    using arg_cong [OF lens, of length] new(2) by simp
  have rows: "\<forall>row\<in>set (Grid m). int (length row) = ?C"
  proof
    fix row assume row: "row \<in> set (Grid m)"
    then have "length row \<in> set (map length (Grid m))" by simp
    then have "length row = nat ?C" "0 < nat ?R" unfolding lens by auto
    then show "int (length row) = ?C" using new(4) by simp
  qed
  show ?thesis
    using size len rows
    by (simp add: dim_wrap pixel_dim_def is_int64_def wrap64_id)
qed

theorem Size_matches_grid_witness:
  "NewMaze 2 1 4 1 = Done demo_fresh \<and> regenerated rot_source demo_fresh demo_generated \<and>
   Size demo_generated = (11, 6) \<and> length (Grid demo_generated) = 6"
proof -
  have "Size demo_generated = (11, 6) \<and> int (length (Grid demo_generated)) = 6"
    using Size_matches_grid [OF demo_fresh_new demo_regenerated]
    by (simp add: iadd_def imul_def wrap64_def)
  then show ?thesis using demo_fresh_new demo_regenerated by simp
qed

text \<open>
  C5, where the pixel dimensions do not overflow. For \<open>cols > 0\<close>, \<open>rows > 0\<close>, \<open>cellSize > 0\<close> and
  \<open>wallThickness >= 0\<close> with \<open>cols*cellSize + (cols+1)*wallThickness\<close> and \<open>rows*cellSize + (rows+1)*wallThickness\<close>
  both below \<open>2^63\<close>, and for every seed pair, \<open>Generate\<close> returns, on the fresh instance and on a
  used one, given a bound of at least \<open>rows*cols\<close> on the depth of \<open>dfs\<close>. The grid it leaves has
  \<open>rows*cellSize + (rows+1)*wallThickness\<close> rows of \<open>cols*cellSize + (cols+1)*wallThickness\<close> pixels,
  and every pixel in the first or last \<open>wallThickness\<close> rows, or in the first or last
  \<open>wallThickness\<close> columns, holds 1.
\<close>

theorem border_is_wall:
  assumes "perm_contract src" and "NewMaze w h cs wt = Done m0"
    and "0 < w" "0 < h" "0 < cs" "0 \<le> wt" and "fits w h cs wt"
    and "regenerated src m0 m" and "nat (h * w) \<le> n"
  shows "\<exists>m'. Generate src n m seed1 seed2 = Done m' \<and>
           map length (Grid m') = replicate (nat (pixel_dim h cs wt)) (nat (pixel_dim w cs wt)) \<and>
           (\<forall>y x. 0 \<le> y \<and> y < pixel_dim h cs wt \<and> 0 \<le> x \<and> x < pixel_dim w cs wt \<and>
                  (y < wt \<or> pixel_dim h cs wt - wt \<le> y \<or> x < wt \<or> pixel_dim w cs wt - wt \<le> x)
                  \<longrightarrow> Grid m' ! nat y ! nat x = 1)"
proof -
  from Generate_geometry [OF assms, of seed1 seed2] obtain m' E where
    run: "Generate src n m seed1 seed2 = Done m'"
    and sub: "region cs wt (cells m0) E \<subseteq> inner w h cs wt"
    and gr: "grid_is (nat (pixel_dim h cs wt)) (nat (pixel_dim w cs wt))
               (region cs wt (cells m0) E) (Grid m')" by blast
  have "Grid m' ! nat y ! nat x = 1"
    if "0 \<le> y" "y < pixel_dim h cs wt" "0 \<le> x" "x < pixel_dim w cs wt"
      "y < wt \<or> pixel_dim h cs wt - wt \<le> y \<or> x < wt \<or> pixel_dim w cs wt - wt \<le> x" for y x
  proof -
    have "(y, x) \<notin> inner w h cs wt" using that(5) by (auto simp: inner_def)
    then have "(int (nat y), int (nat x)) \<notin> region cs wt (cells m0) E" using sub that by auto
    moreover have "nat y < nat (pixel_dim h cs wt)" "nat x < nat (pixel_dim w cs wt)"
      using that by auto
    ultimately show ?thesis using gr by (simp add: grid_is_def)
  qed
  then show ?thesis using run grid_is_lengths [OF gr] by blast
qed

theorem border_is_wall_witness:
  "perm_contract rot_source \<and> NewMaze 2 1 4 1 = Done demo_fresh \<and>
   (0 :: int) < 2 \<and> (0 :: int) < 1 \<and> (0 :: int) < 4 \<and> (0 :: int) \<le> 1 \<and> fits 2 1 4 1 \<and>
   regenerated rot_source demo_fresh demo_generated \<and> nat (1 * 2) \<le> 2 \<and>
   (\<exists>m'. Generate rot_source 2 demo_generated 0 1 = Done m' \<and> Grid m' ! 5 ! 3 = 1)"
proof -
  have f: "fits 2 1 4 1" by (simp add: fits_def pixel_dim_def)
  from border_is_wall [OF rot_source_contract demo_fresh_new _ _ _ _ f demo_regenerated,
      of 2 0 1]
  obtain m' where "Generate rot_source 2 demo_generated 0 1 = Done m'"
    "\<forall>y x. 0 \<le> y \<and> y < pixel_dim 1 4 1 \<and> 0 \<le> x \<and> x < pixel_dim 2 4 1 \<and>
                  (y < 1 \<or> pixel_dim 1 4 1 - 1 \<le> y \<or> x < 1 \<or> pixel_dim 2 4 1 - 1 \<le> x)
                  \<longrightarrow> Grid m' ! nat y ! nat x = 1"
    by auto
  from this(1) this(2) [rule_format, of 5 3]
  have "\<exists>m'. Generate rot_source 2 demo_generated 0 1 = Done m' \<and> Grid m' ! 5 ! 3 = 1"
    by (auto simp: pixel_dim_def)
  then show ?thesis using rot_source_contract demo_fresh_new demo_regenerated f by simp
qed

text \<open>
  C5 as stated fails where the dimensions overflow. \<open>NewMaze(3, 3, 6148914691236517205, 1)\<close>
  computes \<open>3*6148914691236517205 + 4 = 2^64 + 3\<close>, which wraps to 3, and allocates a grid of
  3 by 3 pixels. The block of cell \<open>(0, 0)\<close> starts at pixel \<open>(1, 1)\<close> and has
  6148914691236517205 rows and columns, so after \<open>Generate\<close> the pixel \<open>(2, 2)\<close>, in the
  last row and the last column of the grid, is open.
\<close>

theorem border_is_wall_counterexample:
  "NewMaze 3 3 6148914691236517205 1 = Done demo_wide \<and> length (Grid demo_wide) = 3 \<and>
   (\<exists>m'. Generate rot_source 9 demo_wide 0 0 = Done m' \<and> length (Grid m') = 3 \<and>
      Grid m' ! 2 ! 2 = 0)"
proof -
  let ?K = "6148914691236517205 :: int"
  have id: "wrap64 (pixel_dim 3 ?K 1) = 3" by (simp add: pixel_dim_def wrap64_def)
  from Generate_maze [OF rot_source_contract demo_wide_new _ _ _ _ regenerated.fresh, of 9 0 0]
  obtain m' E where run: "Generate rot_source 9 demo_wide 0 0 = Done m'"
    and gr: "grid_is 3 3 (carved ?K 1 (cells demo_wide) E) (Grid m')"
    by (auto simp: id)
  have "(0, 0) \<in> cells demo_wide" by (simp add: cells_def demo_wide_def)
  moreover have "(2, 2) \<in> block ?K 1 (0, 0)" by (simp add: rect_def origin_def)
  ultimately have "(2, 2) \<in> region ?K 1 (cells demo_wide) E"
    unfolding region_def by blast
  then have "(\<lambda>(y, x). (wrap64 y, wrap64 x)) (2, 2) \<in> carved ?K 1 (cells demo_wide) E"
    unfolding carved_region wrap_px_def by (rule imageI)
  then have "(int 2, int 2) \<in> carved ?K 1 (cells demo_wide) E" by (simp add: wrap64_def)
  then have "Grid m' ! 2 ! 2 = 0" using gr by (simp add: grid_is_def)
  moreover have "length (Grid m') = 3" using gr by (simp add: grid_is_def)
  ultimately show ?thesis using run demo_wide_new by (auto simp: demo_wide_def)
qed

text \<open>
  C6. For \<open>cols = 2\<close>, \<open>rows = 1\<close>, \<open>cellSize = 4\<close>, \<open>wallThickness = 1\<close>, every seed pair, and the
  instance fresh or used, \<open>Generate\<close> returns given a bound of at least 2 on the depth of
  \<open>dfs\<close>. The grid it leaves is the one written out below: 6 rows of 11 pixels, a border
  of wall one pixel wide around 4 rows of 9 open pixels; \<open>Size\<close> returns \<open>(11, 6)\<close>. The open
  pixels are exactly the blocks of the two cells and the gap between them: the two cells
  have one passage between them, from cell \<open>(0, 0)\<close> to the right, and it is open.
\<close>

theorem scenario_two_cells:
  assumes "perm_contract src" and "NewMaze 2 1 4 1 = Done m0"
    and "regenerated src m0 m" and "2 \<le> n"
  shows "\<exists>m'. Generate src n m seed1 seed2 = Done m' \<and>
           Grid m' = [[1,1,1,1,1,1,1,1,1,1,1], [1,0,0,0,0,0,0,0,0,0,1],
                      [1,0,0,0,0,0,0,0,0,0,1], [1,0,0,0,0,0,0,0,0,0,1],
                      [1,0,0,0,0,0,0,0,0,0,1], [1,1,1,1,1,1,1,1,1,1,1]] \<and>
           Size m' = (11, 6) \<and> length (Grid m') = 6 \<and> (\<forall>row\<in>set (Grid m'). length row = 11) \<and>
           passages m' = {((0, 0), 3)} \<and> passage_open m' ((0, 0), 3) \<and>
           {p. is_open (Grid m') p} = block 4 1 (0, 0) \<union> gap 4 1 ((0, 0), 3) \<union> block 4 1 (0, 1)"
proof -
  have f: "fits 2 1 4 1" by (simp add: fits_def pixel_dim_def)
  have fuel: "nat (1 * 2) \<le> n" using assms(4) by simp
  from Generate_geometry [OF assms(1,2) _ _ _ _ f assms(3) fuel, of seed1 seed2]
  obtain m' E where run: "Generate src n m seed1 seed2 = Done m'" and fr: "frame m0 m'"
    and tr: "tree (cells m0) E"
    and sub: "region 4 1 (cells m0) E \<subseteq> inner 2 1 4 1"
    and gr: "grid_is (nat (pixel_dim 1 4 1)) (nat (pixel_dim 2 4 1))
               (region 4 1 (cells m0) E) (Grid m')"
    by auto
  have cfg: "Rows m' = 1" "Cols m' = 2" "CellSize m' = 4" "WallThickness m' = 1"
    using NewMaze_dims [OF assms(2) _ _ _ _ f fr] by auto
  have c: "cells m' = {(0, 0), (0, 1)}" by (auto simp: cells_def cfg)
  then have c0: "cells m0 = {(0, 0), (0, 1)}" using frame_cells [OF fr] by simp
  have E: "E = {((0, 0), 3)}" using tr unfolding c0 by (rule tree_two_cells)
  note reg = region_two_cells [folded E c0]
  have dims: "nat (pixel_dim 1 4 1) = 6" "nat (pixel_dim 2 4 1) = 11"
    by (simp_all add: pixel_dim_def)
  have grid: "Grid m' = [[1,1,1,1,1,1,1,1,1,1,1], [1,0,0,0,0,0,0,0,0,0,1],
                      [1,0,0,0,0,0,0,0,0,0,1], [1,0,0,0,0,0,0,0,0,0,1],
                      [1,0,0,0,0,0,0,0,0,0,1], [1,1,1,1,1,1,1,1,1,1,1]]"
    using grid_is_eq [OF gr] unfolding reg dims two_cells_grid .
  have p: "passages m' = {((0, 0), 3)}" unfolding passages_def c by auto
  have op: "{p. is_open (Grid m') p} = region 4 1 (cells m0) E"
    by (rule open_iff_region [OF gr sub]) simp
  have parts: "region 4 1 (cells m0) E
      = block 4 1 (0, 0) \<union> gap 4 1 ((0, 0), 3) \<union> block 4 1 (0, 1)"
    unfolding E c0 region_def by auto
  have "passage_open m' ((0, 0), 3)"
    unfolding passage_open_def cfg using op parts by auto
  moreover have "Size m' = (11, 6)"
    by (simp add: Size_def cfg iadd_def imul_def wrap64_def)
  moreover have "length (Grid m') = 6" "\<forall>row\<in>set (Grid m'). length row = 11"
    unfolding grid by simp_all
  ultimately show ?thesis using run grid p op parts by auto
qed

theorem scenario_two_cells_witness:
  "perm_contract rot_source \<and> NewMaze 2 1 4 1 = Done demo_fresh \<and>
   regenerated rot_source demo_fresh demo_generated \<and> (2 :: nat) \<le> 2 \<and>
   (\<exists>m'. Generate rot_source 2 demo_generated 11 12 = Done m' \<and>
      Grid m' = [[1,1,1,1,1,1,1,1,1,1,1], [1,0,0,0,0,0,0,0,0,0,1],
                 [1,0,0,0,0,0,0,0,0,0,1], [1,0,0,0,0,0,0,0,0,0,1],
                 [1,0,0,0,0,0,0,0,0,0,1], [1,1,1,1,1,1,1,1,1,1,1]] \<and>
      Size m' = (11, 6) \<and> length (Grid m') = 6 \<and> (\<forall>row\<in>set (Grid m'). length row = 11) \<and>
      passages m' = {((0, 0), 3)} \<and> passage_open m' ((0, 0), 3) \<and>
      {p. is_open (Grid m') p} = block 4 1 (0, 0) \<union> gap 4 1 ((0, 0), 3) \<union> block 4 1 (0, 1))"
  using scenario_two_cells [OF rot_source_contract demo_fresh_new demo_regenerated, of 2 11 12]
    rot_source_contract demo_fresh_new demo_regenerated by simp

text \<open>
  C7 as the code has it. On an instance with no column or no row, \<open>Generate\<close> does not
  return: after it has reseeded the source and reset the grid, \<open>dfs(0, 0)\<close> writes
  \<open>m.Visited[0][0]\<close>, which does not exist, and the run panics with an index out of range.
\<close>

theorem Generate_zero_size_panics:
  assumes "NewMaze w h cellSize wallThickness = Done m" and "w = 0 \<or> h = 0"
  shows "Generate src (Suc n) m seed1 seed2 = Panic IndexOutOfRange"
proof -
  note new = NewMaze_Done [OF assms(1)]
  have vis: "Visited m = replicate (nat h) (replicate (nat w) False)"
    by (subst new(1)) simp
  have "store2 (map (\<lambda>row. map (\<lambda>_. False) row) (Visited m)) 0 0 True = Panic IndexOutOfRange"
    using assms(2) new(3) by (auto simp: store2_def vis)
  then show ?thesis by (simp add: Generate_def Let_def)
qed

theorem Generate_zero_size_panics_witness:
  "NewMaze 0 0 4 1 = Done demo_empty \<and> ((0 :: int) = 0 \<or> (0 :: int) = 0) \<and>
   Generate rot_source (Suc 0) demo_empty 3 4 = Panic IndexOutOfRange"
  using Generate_zero_size_panics [OF demo_empty_new, of rot_source 0 3 4] demo_empty_new
  by simp

text \<open>
  C7 as stated fails: \<open>Generate(0, 0)\<close> on \<open>NewMaze(0, 0, 4, 1)\<close> panics instead of
  returning.
\<close>

theorem Generate_zero_size_counterexample:
  "NewMaze 0 0 4 1 = Done demo_empty \<and>
   Generate rot_source 1 demo_empty 0 0 = Panic IndexOutOfRange"
  by code_simp

text \<open>
  C8. A run of \<open>Generate\<close> that returns, in any store and on any instance, leaves \<open>cols\<close>,
  \<open>rows\<close>, \<open>cellSize\<close> and \<open>wallThickness\<close> as they were, and \<open>Grid\<close> and \<open>Visited\<close> refer to the
  arrays they referred to before. No array of rows has changed, so every row is the array
  it was; the store holds the arrays it held, with their lengths, and no new one; the
  elements of an array of pixels have changed only if a row of the grid refers to it, and
  those of an array of flags only if a row of the visited matrix does. Read as values, the
  grid and the visited matrix keep their number of rows and the length of every row, and
  where no two rows share an array the values after the run are those that \<open>Generate\<close>
  computes from the values before.
\<close>

theorem Generate_overwrites_in_place:
  assumes "Generate_mem src n (s, m) seed1 seed2 = Done (s', m')"
  shows "mCols m' = mCols m \<and> mRows m' = mRows m \<and> mCellSize m' = mCellSize m \<and>
         mWallThickness m' = mWallThickness m \<and>
         mGrid m' = mGrid m \<and> mVisited m' = mVisited m \<and> m' = m\<lparr>mRnd := mRnd m'\<rparr> \<and>
         slice_arrays s' = slice_arrays s \<and>
         map length (int_arrays s') = map length (int_arrays s) \<and>
         map length (bool_arrays s') = map length (bool_arrays s) \<and>
         (\<forall>a<length (int_arrays s).
            Some a \<notin> set (array_at (slice_arrays s) (mGrid m)) \<longrightarrow>
            int_arrays s' ! a = int_arrays s ! a) \<and>
         (\<forall>a<length (bool_arrays s).
            Some a \<notin> set (array_at (slice_arrays s) (mVisited m)) \<longrightarrow>
            bool_arrays s' ! a = bool_arrays s ! a) \<and>
         frame (contents (s, m)) (contents (s', m')) \<and>
         (unshared (s, m) \<longrightarrow>
            Generate src n (contents (s, m)) seed1 seed2 = Done (contents (s', m')))"
proof -
  have ip: "in_place (s, m) (s', m')" by (rule Generate_mem_in_place [OF assms])
  have "Generate src n (contents (s, m)) seed1 seed2 = Done (contents (s', m'))"
    if "unshared (s, m)"
    using Generate_mem_sim [OF that, of src n seed1 seed2] assms by simp
  then show ?thesis using ip in_place_frame [OF ip] by (simp add: in_place_def)
qed

theorem Generate_overwrites_in_place_witness:
  "Generate_mem rot_source 2 (demo_store, demo_ptr) 0 0
     = Done (demo_store_generated, demo_ptr_generated) \<and>
   mGrid demo_ptr_generated = mGrid demo_ptr \<and>
   mVisited demo_ptr_generated = mVisited demo_ptr \<and>
   slice_arrays demo_store_generated = slice_arrays demo_store \<and>
   map length (int_arrays demo_store_generated) = map length (int_arrays demo_store) \<and>
   0 < length (int_arrays demo_store) \<and>
   Some 0 \<notin> set (array_at (slice_arrays demo_store) (mGrid demo_ptr)) \<and>
   int_arrays demo_store_generated ! 0 = int_arrays demo_store ! 0 \<and>
   unshared (demo_store, demo_ptr) \<and>
   Generate rot_source 2 (contents (demo_store, demo_ptr)) 0 0
     = Done (contents (demo_store_generated, demo_ptr_generated))"
proof -
  have a: "0 < length (int_arrays demo_store)"
    "Some 0 \<notin> set (array_at (slice_arrays demo_store) (mGrid demo_ptr))"
    by (simp_all add: demo_store_def demo_ptr_def)
  have u: "unshared (demo_store, demo_ptr)" by (rule NewMaze_mem_unshared [OF demo_mem_new])
  show ?thesis
    using Generate_overwrites_in_place [OF demo_mem_run] demo_mem_run a u by simp
qed

text \<open>
  C9. For \<open>cols > 0\<close> and \<open>rows > 0\<close> (and any cell size and wall thickness with which
  \<open>NewMaze\<close> returns), \<open>Generate\<close> returns, on the fresh instance and on a used one, and
  \<open>dfs\<close> never nests deeper than \<open>rows*cols\<close> calls: a bound of \<open>rows*cols\<close> on the depth
  is enough, every larger bound gives the same result, and every cell is visited.
\<close>

theorem Generate_terminates:
  assumes "perm_contract src" and "NewMaze w h cellSize wallThickness = Done m0"
    and "0 < w" "w < 2 ^ 63" "0 < h" "h < 2 ^ 63"
    and "regenerated src m0 m"
  shows "\<exists>m'. Generate src (nat (h * w)) m seed1 seed2 = Done m' \<and>
           (\<forall>n. nat (h * w) \<le> n \<longrightarrow> Generate src n m seed1 seed2 = Done m') \<and>
           visited_cells m' = cells m0"
proof -
  from Generate_maze [OF assms, of "nat (h * w)" seed1 seed2] obtain m' where
    m': "Generate src (nat (h * w)) m seed1 seed2 = Done m'" "visited_cells m' = cells m0"
    by auto
  then show ?thesis using Generate_fuel_mono [OF m'(1)] by blast
qed

theorem Generate_terminates_witness:
  "perm_contract rot_source \<and> NewMaze 2 1 4 1 = Done demo_fresh \<and>
   (0 :: int) < 2 \<and> (2 :: int) < 2 ^ 63 \<and> (0 :: int) < 1 \<and> (1 :: int) < 2 ^ 63 \<and>
   regenerated rot_source demo_fresh demo_generated \<and>
   (\<exists>m'. Generate rot_source (nat (1 * 2)) demo_generated 8 9 = Done m' \<and>
      visited_cells m' = cells demo_fresh)"
proof -
  have "\<exists>m'. Generate rot_source (nat (1 * 2)) demo_generated 8 9 = Done m' \<and>
      visited_cells m' = cells demo_fresh"
    using Generate_terminates [OF rot_source_contract demo_fresh_new _ _ _ _ demo_regenerated,
        of 8 9]
    by auto
  then show ?thesis using rot_source_contract demo_fresh_new demo_regenerated by simp
qed

text \<open>
  C10, where the pixel dimensions do not overflow. For \<open>cols > 0\<close>, \<open>rows > 0\<close>, \<open>cellSize > 0\<close> and
  \<open>wallThickness >= 0\<close> with \<open>cols*cellSize + (cols+1)*wallThickness\<close> and \<open>rows*cellSize + (rows+1)*wallThickness\<close>
  both below \<open>2^63\<close>, on the fresh instance and on a used one, and for every cell \<open>(r, c)\<close> of
  the grid: every pixel that \<open>dfs(r, c)\<close> computes in the loop that fills the block of the
  cell passes the bounds test, and so does every pixel of the loop that opens the wall in
  a direction whose test on the neighbour (\<open>nr >= 0\<close>, \<open>nc >= 0\<close>, \<open>nr < m.Rows\<close>,
  \<open>nc < m.Cols\<close>) succeeds.
\<close>

theorem pixel_writes_in_bounds:
  assumes new: "NewMaze w h cs wt = Done m0"
    and dims: "0 < w" "0 < h" "0 < cs" "0 \<le> wt" and fits: "fits w h cs wt"
    and fr: "frame m0 m" and rc: "(r, c) \<in> cells m"
  shows "let startY = iadd (WallThickness m) (imul r (iadd (CellSize m) (WallThickness m)));
             startX = iadd (WallThickness m) (imul c (iadd (CellSize m) (WallThickness m)))
         in (\<forall>y\<in>set (range_int (CellSize m)). \<forall>x\<in>set (range_int (CellSize m)).
               in_bounds (Grid m) (iadd startY y) (iadd startX x)) \<and>
            (isub r 1 \<ge> 0 \<longrightarrow>
               (\<forall>x\<in>set (range_int (CellSize m)). \<forall>y\<in>set (range_int (WallThickness m)).
                  in_bounds (Grid m) (iadd (isub startY (WallThickness m)) y) (iadd startX x))) \<and>
            (isub c 1 \<ge> 0 \<longrightarrow>
               (\<forall>y\<in>set (range_int (CellSize m)). \<forall>x\<in>set (range_int (WallThickness m)).
                  in_bounds (Grid m) (iadd startY y) (iadd (isub startX (WallThickness m)) x))) \<and>
            (iadd r 1 < Rows m \<longrightarrow>
               (\<forall>x\<in>set (range_int (CellSize m)). \<forall>y\<in>set (range_int (WallThickness m)).
                  in_bounds (Grid m) (iadd (iadd startY (CellSize m)) y) (iadd startX x))) \<and>
            (iadd c 1 < Cols m \<longrightarrow>
               (\<forall>y\<in>set (range_int (CellSize m)). \<forall>x\<in>set (range_int (WallThickness m)).
                  in_bounds (Grid m) (iadd startY y) (iadd (iadd startX (CellSize m)) x)))"
proof -
  note cfg = NewMaze_dims [OF new dims fits fr]
  have b: "0 \<le> r" "r < h" "0 \<le> c" "c < w" using rc cfg by (auto simp: cells_def)
  have big: "h < 2 ^ 63" "w < 2 ^ 63"
    using pixel_dim_pos(1) [OF dims(1,3,4)] pixel_dim_pos(1) [OF dims(2,3,4)] fits
    by (auto simp: fits_def)
  have arith: "isub r 1 = r - 1" "isub c 1 = c - 1" "iadd r 1 = r + 1" "iadd c 1 = c + 1"
    using b big by (simp_all add: isub_def iadd_def wrap64_id)
  have inb: "in_bounds (Grid m) (wrap64 y) (wrap64 x)" if "(y, x) \<in> inner w h cs wt" for y x
  proof -
    have "0 \<le> y" "y < 2 ^ 63" "0 \<le> x" "x < 2 ^ 63"
      using that dims fits by (auto simp: inner_def fits_def)
    then have "wrap64 y = y" "wrap64 x = x" by (simp_all add: wrap64_id)
    then show ?thesis using in_bounds_inner [OF cfg(5) dims(4) that] by simp
  qed
  have cell: "(origin cs wt r + y, origin cs wt c + x) \<in> inner w h cs wt"
    if "0 \<le> y" "y < cs" "0 \<le> x" "x < cs" for y x
    using block_inner [OF dims(3,4) b] that by (auto simp: rect_def)
  have gp: "(y, x) \<in> inner w h cs wt"
    if "(y, x) \<in> gap cs wt ((r, c), d)" "d \<in> {0, 1, 2, 3}"
       "neighbour (r, c) d \<in> {(r, c). 0 \<le> r \<and> r < h \<and> 0 \<le> c \<and> c < w}" for y x d
    using gap_inner [OF dims(3,4) b that(2,3)] that(1) by auto
  have up: "(origin cs wt r - wt + y, origin cs wt c + x) \<in> inner w h cs wt"
    if "0 \<le> r - 1" "0 \<le> y" "y < wt" "0 \<le> x" "x < cs" for y x
    using that b by (intro gp [of _ _ 0]) (auto simp: rect_def)
  have left: "(origin cs wt r + y, origin cs wt c - wt + x) \<in> inner w h cs wt"
    if "0 \<le> c - 1" "0 \<le> y" "y < cs" "0 \<le> x" "x < wt" for y x
    using that b by (intro gp [of _ _ 1]) (auto simp: rect_def)
  have down: "(origin cs wt r + cs + y, origin cs wt c + x) \<in> inner w h cs wt"
    if "r + 1 < h" "0 \<le> y" "y < wt" "0 \<le> x" "x < cs" for y x
    using that b by (intro gp [of _ _ 2]) (auto simp: rect_def)
  have right: "(origin cs wt r + y, origin cs wt c + cs + x) \<in> inner w h cs wt"
    if "c + 1 < w" "0 \<le> y" "y < cs" "0 \<le> x" "x < wt" for y x
    using that b by (intro gp [of _ _ 3]) (auto simp: rect_def)
  show ?thesis
    unfolding Let_def cfg origin_code arith set_range_int
    by (auto simp: iadd_def isub_def intro!: inb cell up left down right)
qed

theorem pixel_writes_in_bounds_witness:
  "NewMaze 2 1 4 1 = Done demo_fresh \<and>
   (0 :: int) < 2 \<and> (0 :: int) < 1 \<and> (0 :: int) < 4 \<and> (0 :: int) \<le> 1 \<and> fits 2 1 4 1 \<and>
   frame demo_fresh demo_generated \<and> (0, 1) \<in> cells demo_generated \<and>
   in_bounds (Grid demo_generated) (iadd (iadd 1 (imul 0 (iadd 4 1))) 3)
     (iadd (isub (iadd 1 (imul 1 (iadd 4 1))) 1) 0)"
proof -
  have f: "fits 2 1 4 1" by (simp add: fits_def pixel_dim_def)
  have fr: "frame demo_fresh demo_generated" by (rule regenerated_frame [OF demo_regenerated])
  have c: "(0, 1) \<in> cells demo_generated" by (simp add: cells_def demo_generated_def)
  have cfg: "CellSize demo_generated = 4" "WallThickness demo_generated = 1"
    by (simp_all add: demo_generated_def)
  have "isub 1 1 \<ge> 0" by (simp add: isub_def wrap64_def)
  with pixel_writes_in_bounds [OF demo_fresh_new _ _ _ _ f fr c]
  have "\<forall>y\<in>set (range_int 4). \<forall>x\<in>set (range_int 1).
          in_bounds (Grid demo_generated) (iadd (iadd 1 (imul 0 (iadd 4 1))) y)
            (iadd (isub (iadd 1 (imul 1 (iadd 4 1))) 1) x)"
    by (simp add: Let_def cfg)
  then have "in_bounds (Grid demo_generated) (iadd (iadd 1 (imul 0 (iadd 4 1))) 3)
     (iadd (isub (iadd 1 (imul 1 (iadd 4 1))) 1) 0)"
    by (simp add: set_range_int)
  then show ?thesis using demo_fresh_new f fr c by simp
qed

text \<open>
  C10 as stated fails where the dimensions overflow. \<open>NewMaze(1, 1, 4, 9223372036854775807)\<close>
  computes \<open>4 + 2*(2^63 - 1) = 2^64 + 2\<close>, which wraps to 2, and allocates a grid of 2 by 2
  pixels. \<open>dfs(0, 0)\<close> computes \<open>startY = startX = 9223372036854775807\<close> for the first
  pixel of the block of the cell, the bounds test rejects it, and \<open>Generate\<close> returns with
  every pixel of the grid a wall.
\<close>

theorem pixel_writes_in_bounds_counterexample:
  "NewMaze 1 1 4 9223372036854775807 = Done demo_tight \<and> (0, 0) \<in> cells demo_tight \<and>
   0 \<in> set (range_int (CellSize demo_tight)) \<and>
   \<not> in_bounds (Grid demo_tight)
       (iadd (iadd (WallThickness demo_tight)
          (imul 0 (iadd (CellSize demo_tight) (WallThickness demo_tight)))) 0)
       (iadd (iadd (WallThickness demo_tight)
          (imul 0 (iadd (CellSize demo_tight) (WallThickness demo_tight)))) 0) \<and>
   Generate rot_source 1 demo_tight 0 0 = Done demo_tight_generated"
proof -
  have "(0, 0) \<in> cells demo_tight" by (simp add: cells_def demo_tight_def)
  moreover have "0 \<in> set (range_int (CellSize demo_tight))"
    by (simp add: set_range_int demo_tight_def)
  moreover have "\<not> in_bounds (Grid demo_tight)
       (iadd (iadd (WallThickness demo_tight)
          (imul 0 (iadd (CellSize demo_tight) (WallThickness demo_tight)))) 0)
       (iadd (iadd (WallThickness demo_tight)
          (imul 0 (iadd (CellSize demo_tight) (WallThickness demo_tight)))) 0)"
    by (simp add: in_bounds_def demo_tight_def iadd_def imul_def wrap64_def)
  ultimately show ?thesis using demo_tight_new demo_tight_run by simp
qed

end
